theory Spec2Isabelle
  imports Complex_Main
begin

section \<open>The radial tree layout of maxGraph (mxRadialTreeLayout.js)\<close>

text \<open>
  The development embeds \<^verbatim>\<open>mxRadialTreeLayout.execute\<close> and \<^verbatim>\<open>calcRowDims\<close> and
  proves properties of the four phases of the layout: row dimensions, gradients and
  polar angles, the reconciliation of parents with their children, and the final
  placement of the vertices.
\<close>

subsection \<open>Numbers\<close>

text \<open>
  A JavaScript number is modelled as a real, one of the two infinities, or \<open>NaN\<close>. \<open>NaN\<close>
  also stands for \<^verbatim>\<open>undefined\<close>: every place of this file where the source could read an
  unset array entry or an unset \<^verbatim>\<open>theta\<close> uses it as a number, where \<^verbatim>\<open>undefined\<close> converts
  to \<open>NaN\<close>. The arithmetic of the reals is exact: rounding and overflow are outside the
  model, and so is the sign of zero. A zero is the positive zero: the quotient of a
  positive number by zero is the positive infinity, that of a negative number the
  negative infinity, and that of zero is \<open>NaN\<close>.
\<close>

datatype num = Num real | PInf | NInf | NaN

text \<open>The infinity with the sign of a real, \<open>NaN\<close> for zero; the sign of a number.\<close>

definition signed_inf :: "real \<Rightarrow> num" where
  "signed_inf s = (if 0 < s then PInf else if s < 0 then NInf else NaN)"

definition sign_of :: "num \<Rightarrow> real" where
  "sign_of a = (case a of Num u \<Rightarrow> sgn u | PInf \<Rightarrow> 1 | NInf \<Rightarrow> - 1 | NaN \<Rightarrow> 0)"

definition negate :: "num \<Rightarrow> num" where
  "negate a = (case a of Num u \<Rightarrow> Num (- u) | PInf \<Rightarrow> NInf | NInf \<Rightarrow> PInf | NaN \<Rightarrow> NaN)"

instantiation num :: "{plus, minus, times, inverse, ord}"
begin

definition plus_num :: "num \<Rightarrow> num \<Rightarrow> num" where
  "plus_num a b =
     (case (a, b) of
        (Num u, Num v) \<Rightarrow> Num (u + v)
      | (NaN, _) \<Rightarrow> NaN
      | (_, NaN) \<Rightarrow> NaN
      | (PInf, NInf) \<Rightarrow> NaN
      | (NInf, PInf) \<Rightarrow> NaN
      | (PInf, _) \<Rightarrow> PInf
      | (_, PInf) \<Rightarrow> PInf
      | (NInf, _) \<Rightarrow> NInf
      | (_, NInf) \<Rightarrow> NInf)"

definition minus_num :: "num \<Rightarrow> num \<Rightarrow> num" where
  "minus_num a b = plus a (negate b)"

definition times_num :: "num \<Rightarrow> num \<Rightarrow> num" where
  "times_num a b =
     (case (a, b) of
        (Num u, Num v) \<Rightarrow> Num (u * v)
      | (NaN, _) \<Rightarrow> NaN
      | (_, NaN) \<Rightarrow> NaN
      | _ \<Rightarrow> signed_inf (sign_of a * sign_of b))"

definition divide_num :: "num \<Rightarrow> num \<Rightarrow> num" where
  "divide_num a b =
     (case (a, b) of
        (Num u, Num v) \<Rightarrow> if v = 0 then signed_inf u else Num (u / v)
      | (NaN, _) \<Rightarrow> NaN
      | (_, NaN) \<Rightarrow> NaN
      | (Num u, _) \<Rightarrow> Num 0
      | (PInf, Num v) \<Rightarrow> if v < 0 then NInf else PInf
      | (NInf, Num v) \<Rightarrow> if v < 0 then PInf else NInf
      | _ \<Rightarrow> NaN)"

definition inverse_num :: "num \<Rightarrow> num" where
  "inverse_num a = divide (Num 1) a"

text \<open>A comparison with \<open>NaN\<close> is false.\<close>

definition less_num :: "num \<Rightarrow> num \<Rightarrow> bool" where
  "less_num a b =
     (case (a, b) of
        (Num u, Num v) \<Rightarrow> u < v
      | (NaN, _) \<Rightarrow> False
      | (_, NaN) \<Rightarrow> False
      | (NInf, NInf) \<Rightarrow> False
      | (NInf, _) \<Rightarrow> True
      | (PInf, _) \<Rightarrow> False
      | (_, PInf) \<Rightarrow> True
      | _ \<Rightarrow> False)"

definition less_eq_num :: "num \<Rightarrow> num \<Rightarrow> bool" where
  "less_eq_num a b = (a \<noteq> NaN \<and> b \<noteq> NaN \<and> (less a b \<or> a = b))"

instance ..

end

definition Math_max :: "num \<Rightarrow> num \<Rightarrow> num" where
  "Math_max a b =
     (case (a, b) of (NaN, _) \<Rightarrow> NaN | (_, NaN) \<Rightarrow> NaN | _ \<Rightarrow> if a < b then b else a)"

definition Math_min :: "num \<Rightarrow> num \<Rightarrow> num" where
  "Math_min a b =
     (case (a, b) of (NaN, _) \<Rightarrow> NaN | (_, NaN) \<Rightarrow> NaN | _ \<Rightarrow> if b < a then b else a)"

definition Math_cos :: "num \<Rightarrow> num" where
  "Math_cos a = (case a of Num u \<Rightarrow> Num (cos u) | _ \<Rightarrow> NaN)"

definition Math_sin :: "num \<Rightarrow> num" where
  "Math_sin a = (case a of Num u \<Rightarrow> Num (sin u) | _ \<Rightarrow> NaN)"

definition Math_PI :: num where
  "Math_PI = Num pi"

text \<open>The numbers that are reals, and the real value of such a number.\<close>

definition finite_num :: "num \<Rightarrow> bool" where
  "finite_num a = (case a of Num u \<Rightarrow> True | _ \<Rightarrow> False)"

fun real_of :: "num \<Rightarrow> real" where
  "real_of (Num u) = u"
| "real_of _ = 0"

subsection \<open>Arrays\<close>

text \<open>
  A JavaScript array is a list. An assignment \<^verbatim>\<open>a[i] = v\<close> beyond the end extends the
  array and leaves holes, which read as \<^verbatim>\<open>undefined\<close>; \<open>hole\<close> is the value a hole
  reads as (\<open>NaN\<close> in an array of numbers, \<open>None\<close> in the array of rows).
\<close>

definition aput :: "'a \<Rightarrow> 'a list \<Rightarrow> nat \<Rightarrow> 'a \<Rightarrow> 'a list" where
  "aput hole xs i v =
     (if i < length xs then xs[i := v] else xs @ replicate (i - length xs) hole @ [v])"

definition aget :: "'a \<Rightarrow> 'a list \<Rightarrow> nat \<Rightarrow> 'a" where
  "aget hole xs i = (if i < length xs then xs ! i else hole)"

subsection \<open>Data model\<close>

text \<open>
  A layout node is an object with a reference (its identity), its cell, the first child
  and the next sibling; \<open>Null\<close> is the null pointer. The field \<^verbatim>\<open>theta\<close>, the only field of
  a node that \<^verbatim>\<open>execute\<close> writes, lives in a heap indexed by the reference, since the
  nodes are shared between the tree and the rows.
\<close>

datatype node = Null | Node nat nat node node

record mxRectangle =
  x :: num
  y :: num
  width :: num
  height :: num

record mxGraph =
  edges :: "(nat \<times> nat) list"
  geometry :: "nat \<Rightarrow> mxRectangle"

text \<open>The fields of the base class that the radial layout reads or writes.\<close>

record mxCompactTreeLayout =
  parent :: nat
  useBoundingBox :: bool
  edgeRouting :: bool
  levelDistance :: num
  nodeDistance :: num
  sortEdges :: bool
  root :: nat
  node :: node

record mxRadialTreeLayout = mxCompactTreeLayout +
  angleOffset :: num
  rootx :: num
  rooty :: num
  autoRadius :: bool
  rowMinX :: "num list"
  rowMaxX :: "num list"
  rowMinCenX :: "num list"
  rowMaxCenX :: "num list"
  rowRadi :: "num list"
  row :: "node list option list"
  centerX :: num
  centerY :: num

text \<open>The layout instance, the graph it lays out and the heap of the nodes' angles.\<close>

record machine =
  layout :: mxRadialTreeLayout
  graph :: mxGraph
  theta :: "nat \<Rightarrow> num"

datatype error = TypeError

text \<open>
  Modelled from the spec: \<^verbatim>\<open>getVertexBounds\<close> and \<^verbatim>\<open>setVertexLocation\<close> of the base class
  mxGraphLayout are not part of the sources; the specification gives them as
  \<^verbatim>\<open>bounds(vertex)\<close>, which returns x, y, width and height of the vertex, and
  \<^verbatim>\<open>setBounds(vertex, x, y)\<close>, which moves the vertex and keeps its size.
\<close>

definition getVertexBounds :: "mxGraph \<Rightarrow> nat \<Rightarrow> mxRectangle" where
  "getVertexBounds g c = geometry g c"

definition setVertexLocation :: "mxGraph \<Rightarrow> nat \<Rightarrow> num \<Rightarrow> num \<Rightarrow> mxGraph" where
  "setVertexLocation g c x' y' =
     g\<lparr>geometry := (geometry g)(c := (geometry g c)\<lparr>x := x', y := y'\<rparr>)\<rparr>"

subsection \<open>calcRowDims\<close>

text \<open>
  The inner loop \<^verbatim>\<open>while (child != null)\<close> of calcRowDims. The state is the layout,
  the array object stored in \<^verbatim>\<open>this.row[rowNum]\<close>, and \<^verbatim>\<open>rowHasChildren\<close>.
\<close>

fun calcRowDims_while ::
  "mxGraph \<Rightarrow> nat \<Rightarrow> node \<Rightarrow> mxRadialTreeLayout \<times> node list \<times> bool
     \<Rightarrow> mxRadialTreeLayout \<times> node list \<times> bool" where
  "calcRowDims_while g rowNum Null s = s"
| "calcRowDims_while g rowNum (Node r cell child next) (this, cur, rowHasChildren) =
     (let vertexBounds = getVertexBounds g cell;
          this1 = this\<lparr>rowMinX := aput NaN (rowMinX this) rowNum
                         (Math_min (x vertexBounds) (aget NaN (rowMinX this) rowNum))\<rparr>;
          this2 = this1\<lparr>rowMaxX := aput NaN (rowMaxX this1) rowNum
                         (Math_max (x vertexBounds + width vertexBounds)
                            (aget NaN (rowMaxX this1) rowNum))\<rparr>;
          this3 = this2\<lparr>rowMinCenX := aput NaN (rowMinCenX this2) rowNum
                         (Math_min (x vertexBounds + width vertexBounds / Num 2)
                            (aget NaN (rowMinCenX this2) rowNum))\<rparr>;
          this4 = this3\<lparr>rowMaxCenX := aput NaN (rowMaxCenX this3) rowNum
                         (Math_max (x vertexBounds + width vertexBounds / Num 2)
                            (aget NaN (rowMaxCenX this3) rowNum))\<rparr>;
          this5 = this4\<lparr>rowRadi := aput NaN (rowRadi this4) rowNum
                         (y vertexBounds - y (getVertexBounds g (root this4)))\<rparr>;
          cur' = cur @ [Node r cell child next];
          this6 = this5\<lparr>row := aput None (row this5) rowNum (Some cur')\<rparr>
      in calcRowDims_while g rowNum next
           (this6, cur', rowHasChildren \<or> child \<noteq> Null))"

text \<open>The outer loop \<^verbatim>\<open>for (let i = 0; i < row.length; i++)\<close>.\<close>

fun calcRowDims_for ::
  "mxGraph \<Rightarrow> nat \<Rightarrow> node list \<Rightarrow> mxRadialTreeLayout \<times> node list \<times> bool
     \<Rightarrow> mxRadialTreeLayout \<times> node list \<times> bool" where
  "calcRowDims_for g rowNum [] s = s"
| "calcRowDims_for g rowNum (n # ns) s =
     calcRowDims_for g rowNum ns
       (calcRowDims_while g rowNum
          (case n of Null \<Rightarrow> Null | Node r cell child next \<Rightarrow> child) s)"

text \<open>
  The number of levels of the forest that starts at a sibling chain, and of a list of
  chains. With the root at depth 0, the depth of the tree below a root node is the number
  of levels of the chain of its children. The recursion of calcRowDims descends one
  level with each call.
\<close>

fun levels :: "node \<Rightarrow> nat" where
  "levels Null = 0"
| "levels (Node r cell child next) = max (Suc (levels child)) (levels next)"

fun forest_levels :: "node list \<Rightarrow> nat" where
  "forest_levels [] = 0"
| "forest_levels (n # ns) = max (levels n) (forest_levels ns)"

fun child_of :: "node \<Rightarrow> node" where
  "child_of Null = Null"
| "child_of (Node r cell child next) = child"

definition depth :: "node \<Rightarrow> nat" where
  "depth n = levels (child_of n)"

text \<open>The nodes of a sibling chain, and the children of a list of nodes, in order.\<close>

fun chain :: "node \<Rightarrow> node list" where
  "chain Null = []"
| "chain (Node r cell child next) = Node r cell child next # chain next"

definition kids :: "node list \<Rightarrow> node list" where
  "kids ns = concat (map (\<lambda>n. chain (child_of n)) ns)"

lemma forest_levels_append:
  "forest_levels (ms @ ns) = max (forest_levels ms) (forest_levels ns)"
  by (induction ms) (simp_all add: max.assoc)

lemma forest_levels_chain: "forest_levels (chain n) = levels n"
  by (induction n) simp_all

lemma while_cur:
  "fst (snd (calcRowDims_while g rowNum n (this, cur, h))) = cur @ chain n"
  by (induction n arbitrary: this cur h) (simp_all add: Let_def)

lemma while_has:
  "snd (snd (calcRowDims_while g rowNum n (this, cur, h))) =
     (h \<or> (\<exists>m \<in> set (chain n). child_of m \<noteq> Null))"
  by (induction n arbitrary: this cur h) (auto simp: Let_def)

lemma for_cur:
  "fst (snd (calcRowDims_for g rowNum ns (this, cur, h))) = cur @ kids ns"
proof (induction ns arbitrary: this cur h)
  case Nil
  then show ?case by (simp add: kids_def)
next
  case (Cons n ns)
  obtain this' cur' h' where
    w: "calcRowDims_while g rowNum (child_of n) (this, cur, h) = (this', cur', h')"
    by (metis prod_cases3)
  have c: "(case n of Null \<Rightarrow> Null | Node r cell child nx \<Rightarrow> child) = child_of n"
    by (cases n) simp_all
  have "cur' = cur @ chain (child_of n)"
    using while_cur [of g rowNum "child_of n" this cur h] w by simp
  then show ?case
    using Cons.IH [of this' cur' h'] w c by (simp add: kids_def)
qed

lemma for_has:
  "snd (snd (calcRowDims_for g rowNum ns (this, cur, h))) =
     (h \<or> (\<exists>m \<in> set (kids ns). child_of m \<noteq> Null))"
proof (induction ns arbitrary: this cur h)
  case Nil
  then show ?case by (simp add: kids_def)
next
  case (Cons n ns)
  obtain this' cur' h' where
    w: "calcRowDims_while g rowNum (child_of n) (this, cur, h) = (this', cur', h')"
    by (metis prod_cases3)
  have c: "(case n of Null \<Rightarrow> Null | Node r cell child nx \<Rightarrow> child) = child_of n"
    by (cases n) simp_all
  have "h' = (h \<or> (\<exists>m \<in> set (chain (child_of n)). child_of m \<noteq> Null))"
    using while_has [of g rowNum "child_of n" this cur h] w by simp
  then show ?case
    using Cons.IH [of this' cur' h'] w c by (auto simp: kids_def)
qed

lemma kids_levels: "kids ns = [] \<or> Suc (forest_levels (kids ns)) \<le> forest_levels ns"
proof (induction ns)
  case Nil
  then show ?case by (simp add: kids_def)
next
  case (Cons n ns)
  have k: "kids (n # ns) = chain (child_of n) @ kids ns"
    by (simp add: kids_def)
  have a: "chain (child_of n) = [] \<and> levels (child_of n) = 0
      \<or> Suc (levels (child_of n)) \<le> levels n"
    by (cases n) simp_all
  show ?case
    using Cons.IH a
    by (auto simp: k forest_levels_append forest_levels_chain)
qed

text \<open>
  calcRowDims. The parameter \<open>nodes\<close> is the source's \<^verbatim>\<open>row\<close>; the recursive call passes the
  array object \<^verbatim>\<open>this.row[rowNum]\<close> that the loops have filled.
\<close>

function calcRowDims ::
  "mxRadialTreeLayout \<Rightarrow> mxGraph \<Rightarrow> node list \<Rightarrow> nat \<Rightarrow> mxRadialTreeLayout" where
  "calcRowDims this g nodes rowNum =
     (if nodes = [] then this
      else
        (let this1 = this\<lparr>rowMinX := aput NaN (rowMinX this) rowNum (centerX this)\<rparr>;
             this2 = this1\<lparr>rowMaxX := aput NaN (rowMaxX this1) rowNum (centerX this1)\<rparr>;
             this3 = this2\<lparr>rowMinCenX := aput NaN (rowMinCenX this2) rowNum (centerX this2)\<rparr>;
             this4 = this3\<lparr>rowMaxCenX := aput NaN (rowMaxCenX this3) rowNum (centerX this3)\<rparr>;
             this5 = this4\<lparr>row := aput None (row this4) rowNum (Some [])\<rparr>
         in case calcRowDims_for g rowNum nodes (this5, [], False) of
              (this6, cur, rowHasChildren) \<Rightarrow>
                if rowHasChildren then calcRowDims this6 g cur (rowNum + 1) else this6))"
  by pat_completeness auto
termination
proof (relation "measure (\<lambda>(this, g, nodes, rowNum). forest_levels nodes)")
  show "wf (measure (\<lambda>(this, g, nodes, rowNum). forest_levels nodes))"
    by simp
next
  fix this this5 this6 :: mxRadialTreeLayout and g nodes rowNum q cur
    and rowHasChildren :: bool
  assume f: "(this6, q) = calcRowDims_for g rowNum nodes (this5, [], False)"
    and q: "(cur, rowHasChildren) = q" and h: "rowHasChildren"
  have "cur = kids nodes"
    using for_cur [of g rowNum nodes this5 "[]" False] f q by (metis append_Nil fst_conv snd_conv)
  moreover have "\<exists>m \<in> set (kids nodes). child_of m \<noteq> Null"
    using for_has [of g rowNum nodes this5 "[]" False] f q h by (metis snd_conv)
  ultimately have "forest_levels cur < forest_levels nodes"
    using kids_levels [of nodes] by auto
  then show "((this6, g, cur, rowNum + 1), (this, g, nodes, rowNum))
      \<in> measure (\<lambda>(this, g, nodes, rowNum). forest_levels nodes)"
    by simp
qed

declare calcRowDims.simps [simp del]

subsection \<open>The phases of execute\<close>

text \<open>
  A loop whose body can throw: the first error ends it. After an error the model keeps
  no state.
\<close>

fun foldE :: "('a \<Rightarrow> 's \<Rightarrow> error + 's) \<Rightarrow> 'a list \<Rightarrow> 's \<Rightarrow> error + 's" where
  "foldE f [] s = Inr s"
| "foldE f (a # as) s = (case f a s of Inl e \<Rightarrow> Inl e | Inr s' \<Rightarrow> foldE f as s')"

text \<open>The steepest left and right gradients (the first loop over the rows).\<close>

definition gradients :: "mxRadialTreeLayout \<Rightarrow> num \<times> num" where
  "gradients this =
     fold (\<lambda>i (maxLeftGrad, maxRightGrad).
             let leftGrad = (centerX this - aget NaN (rowMinX this) i - nodeDistance this)
                              / aget NaN (rowRadi this) i;
                 rightGrad = (aget NaN (rowMaxX this) i - centerX this - nodeDistance this)
                               / aget NaN (rowRadi this) i
             in (Math_max maxLeftGrad leftGrad, Math_max maxRightGrad rightGrad))
       [0..<length (row this)] (Num 0, Num 0)"

text \<open>
  The polar angles (the second loop). Reading \<^verbatim>\<open>length\<close> of a hole of \<^verbatim>\<open>this.row\<close>, or
  \<^verbatim>\<open>cell\<close> of a null entry of a row, throws a TypeError.
\<close>

definition polar_node ::
  "mxGraph \<Rightarrow> num \<Rightarrow> num \<Rightarrow> node \<Rightarrow> (nat \<Rightarrow> num) \<Rightarrow> error + (nat \<Rightarrow> num)" where
  "polar_node g xLeftLimit fullWidth n th =
     (case n of
        Null \<Rightarrow> Inl TypeError
      | Node r cell child next \<Rightarrow>
          let vertexBounds = getVertexBounds g cell;
              xProportion = (x vertexBounds + width vertexBounds / Num 2 - xLeftLimit)
                              / fullWidth;
              theta' = Num 2 * Math_PI * xProportion
          in Inr (th(r := theta')))"

definition polar_row ::
  "mxRadialTreeLayout \<Rightarrow> mxGraph \<Rightarrow> num \<Rightarrow> num \<Rightarrow> nat \<Rightarrow> (nat \<Rightarrow> num)
     \<Rightarrow> error + (nat \<Rightarrow> num)" where
  "polar_row this g maxLeftGrad maxRightGrad i th =
     (let xLeftLimit = centerX this - nodeDistance this
                         - maxLeftGrad * aget NaN (rowRadi this) i;
          xRightLimit = centerX this + nodeDistance this
                          + maxRightGrad * aget NaN (rowRadi this) i;
          fullWidth = xRightLimit - xLeftLimit
      in case aget None (row this) i of
           None \<Rightarrow> Inl TypeError
         | Some nodes \<Rightarrow> foldE (polar_node g xLeftLimit fullWidth) nodes th)"

definition polar ::
  "mxRadialTreeLayout \<Rightarrow> mxGraph \<Rightarrow> num \<Rightarrow> num \<Rightarrow> (nat \<Rightarrow> num) \<Rightarrow> error + (nat \<Rightarrow> num)" where
  "polar this g maxLeftGrad maxRightGrad th =
     foldE (polar_row this g maxLeftGrad maxRightGrad) [0..<length (row this)] th"

text \<open>
  The reconciliation of the parents with their children, from the outside inwards.
  \<open>sum_theta\<close> is the loop \<^verbatim>\<open>while (child != null)\<close> that adds the children's angles.
\<close>

fun sum_theta :: "(nat \<Rightarrow> num) \<Rightarrow> node \<Rightarrow> num \<times> nat \<Rightarrow> num \<times> nat" where
  "sum_theta th Null s = s"
| "sum_theta th (Node r cell child next) (totalTheta, counter) =
     sum_theta th next (totalTheta + th r, counter + 1)"

definition theta_of :: "(nat \<Rightarrow> num) \<Rightarrow> node \<Rightarrow> error + num" where
  "theta_of th n = (case n of Null \<Rightarrow> Inl TypeError | Node r cell child next \<Rightarrow> Inr (th r))"

definition reconcile_node ::
  "node list \<Rightarrow> nat \<Rightarrow> (nat \<Rightarrow> num) \<Rightarrow> error + (nat \<Rightarrow> num)" where
  "reconcile_node nodes j th =
     (case nodes ! j of
        Null \<Rightarrow> Inl TypeError
      | Node r cell child next \<Rightarrow>
          (case sum_theta th child (Num 0, 0) of
             (totalTheta, counter) \<Rightarrow>
               if counter > 0 then
                 (let averTheta = totalTheta / Num (real counter)
                  in if averTheta > th r \<and> j < length nodes - 1 then
                       (case theta_of th (nodes ! (j + 1)) of
                          Inl e \<Rightarrow> Inl e
                        | Inr nextTheta \<Rightarrow>
                            Inr (th(r := Math_min averTheta (nextTheta - Math_PI / Num 10))))
                     else if averTheta < th r \<and> j > 0 then
                       (case theta_of th (nodes ! (j - 1)) of
                          Inl e \<Rightarrow> Inl e
                        | Inr lastTheta \<Rightarrow>
                            Inr (th(r := Math_max averTheta (lastTheta + Math_PI / Num 10))))
                     else Inr th)
               else Inr th))"

definition reconcile_row :: "node list \<Rightarrow> (nat \<Rightarrow> num) \<Rightarrow> error + (nat \<Rightarrow> num)" where
  "reconcile_row nodes th = foldE (reconcile_node nodes) [0..<length nodes] th"

text \<open>The rows \<^verbatim>\<open>row.length - 2\<close> down to 0.\<close>

definition reconcile ::
  "node list option list \<Rightarrow> (nat \<Rightarrow> num) \<Rightarrow> error + (nat \<Rightarrow> num)" where
  "reconcile rows th =
     foldE (\<lambda>i th'. case rows ! i of
                       None \<Rightarrow> Inl TypeError
                     | Some nodes \<Rightarrow> reconcile_row nodes th')
       (rev [0..<length rows - 1]) th"

text \<open>The new locations (the last loop).\<close>

definition emit_node ::
  "mxRadialTreeLayout \<Rightarrow> (nat \<Rightarrow> num) \<Rightarrow> nat \<Rightarrow> node \<Rightarrow> mxGraph \<Rightarrow> error + mxGraph" where
  "emit_node this th i n g =
     (case n of
        Null \<Rightarrow> Inl TypeError
      | Node r cell child next \<Rightarrow>
          let vertexBounds = getVertexBounds g cell
          in Inr (setVertexLocation g cell
                    (centerX this - width vertexBounds / Num 2
                       + aget NaN (rowRadi this) i * Math_cos (th r))
                    (centerY this - height vertexBounds / Num 2
                       + aget NaN (rowRadi this) i * Math_sin (th r))))"

definition emit_row ::
  "mxRadialTreeLayout \<Rightarrow> (nat \<Rightarrow> num) \<Rightarrow> nat \<Rightarrow> mxGraph \<Rightarrow> error + mxGraph" where
  "emit_row this th i g =
     (case aget None (row this) i of
        None \<Rightarrow> Inl TypeError
      | Some nodes \<Rightarrow> foldE (emit_node this th i) nodes g)"

definition emit ::
  "mxRadialTreeLayout \<Rightarrow> (nat \<Rightarrow> num) \<Rightarrow> mxGraph \<Rightarrow> error + mxGraph" where
  "emit this th g = foldE (emit_row this th) [0..<length (row this)] g"

subsection \<open>execute\<close>

text \<open>
  The base class's \<^verbatim>\<open>execute\<close> (mxCompactTreeLayout) is not part of the sources; it is the
  parameter \<open>super_execute\<close>. It receives the fields of the base class, the graph and the heap
  of the nodes, and returns them: it sets \<^verbatim>\<open>this.root\<close> and \<^verbatim>\<open>this.node\<close>, moves the
  vertices and allocates the nodes of the tree. The loop over \<^verbatim>\<open>this.visited\<close> computes
  a local rectangle that nothing reads; it is left out. The model assumes that the base
  layout found a root and that every cell has a geometry.
\<close>

type_synonym compact_layout =
  "mxCompactTreeLayout \<Rightarrow> mxGraph \<Rightarrow> (nat \<Rightarrow> num) \<Rightarrow> nat \<Rightarrow> nat option
     \<Rightarrow> mxCompactTreeLayout \<times> mxGraph \<times> (nat \<Rightarrow> num)"

text \<open>
  The call works on the same object: \<open>super_part\<close> reads the fields of the base class
  from the layout and \<open>set_super\<close> writes them back.
\<close>

definition super_part :: "mxRadialTreeLayout \<Rightarrow> mxCompactTreeLayout" where
  "super_part this = mxCompactTreeLayout.truncate this"

definition set_super :: "mxCompactTreeLayout \<Rightarrow> mxRadialTreeLayout \<Rightarrow> mxRadialTreeLayout" where
  "set_super s this =
     this\<lparr>parent := parent s, useBoundingBox := useBoundingBox s,
          edgeRouting := edgeRouting s, levelDistance := levelDistance s,
          nodeDistance := nodeDistance s, sortEdges := sortEdges s,
          root := root s, node := node s\<rparr>"

text \<open>The layout after the call of the base class, with the center set.\<close>

definition prepare ::
  "compact_layout \<Rightarrow> machine \<Rightarrow> nat \<Rightarrow> nat option
     \<Rightarrow> mxRadialTreeLayout \<times> mxGraph \<times> (nat \<Rightarrow> num)" where
  "prepare super_execute m parent' root' =
     (let this1 = (layout m)\<lparr>parent := parent'\<rparr>;
          this2 = this1\<lparr>useBoundingBox := False\<rparr>;
          this3 = this2\<lparr>edgeRouting := False\<rparr>
      in case super_execute (super_part this3) (graph m) (theta m) parent' root' of
           (super, g, th) \<Rightarrow>
             let this4 = set_super super this3;
                 rootBounds = getVertexBounds g (root this4);
                 this5 = this4\<lparr>centerX := x rootBounds + width rootBounds / Num 2\<rparr>;
                 this6 = this5\<lparr>centerY := y rootBounds + height rootBounds / Num 2\<rparr>
             in (this6, g, th))"

definition execute ::
  "compact_layout \<Rightarrow> machine \<Rightarrow> nat \<Rightarrow> nat option \<Rightarrow> error + machine" where
  "execute super_execute m parent' root' =
     (case prepare super_execute m parent' root' of
        (this6, g, th) \<Rightarrow>
          let this7 = calcRowDims this6 g [node this6] 0
          in case gradients this7 of
               (maxLeftGrad, maxRightGrad) \<Rightarrow>
                 (case polar this7 g maxLeftGrad maxRightGrad th of
                    Inl e \<Rightarrow> Inl e
                  | Inr th1 \<Rightarrow>
                      (case reconcile (row this7) th1 of
                         Inl e \<Rightarrow> Inl e
                       | Inr th2 \<Rightarrow>
                           (case emit this7 th2 g of
                              Inl e \<Rightarrow> Inl e
                            | Inr g' \<Rightarrow> Inr \<lparr>layout = this7, graph = g', theta = th2\<rparr>))))"

section \<open>Basic facts\<close>

lemma num_simps [simp]:
  "Num u + Num v = Num (u + v)"
  "Num u - Num v = Num (u - v)"
  "Num u * Num v = Num (u * v)"
  "Num u / Num v = (if v = 0 then signed_inf u else Num (u / v))"
  "NaN + a = NaN" "a + NaN = NaN" "NaN - a = NaN" "a - NaN = NaN"
  "NaN * a = NaN" "a * NaN = NaN" "NaN / a = NaN" "a / NaN = NaN"
  "(Num u < Num v) = (u < v)" "(NaN < a) = False" "(a < NaN) = False"
  "(Num u \<le> Num v) = (u \<le> v)" "(NaN \<le> a) = False" "(a \<le> NaN) = False"
  by (auto simp: plus_num_def minus_num_def times_num_def divide_num_def less_num_def
      less_eq_num_def negate_def split: num.splits)

lemma signed_inf_simps [simp]:
  "0 < s \<Longrightarrow> signed_inf s = PInf" "s < 0 \<Longrightarrow> signed_inf s = NInf" "signed_inf 0 = NaN"
  by (simp_all add: signed_inf_def)

lemma inf_simps [simp]:
  "PInf + Num v = PInf" "Num u + PInf = PInf" "NInf + Num v = NInf" "Num u + NInf = NInf"
  "PInf + PInf = PInf" "NInf + NInf = NInf" "PInf + NInf = NaN" "NInf + PInf = NaN"
  "PInf - Num v = PInf" "Num u - PInf = NInf" "NInf - Num v = NInf" "Num u - NInf = PInf"
  "PInf - PInf = NaN" "NInf - NInf = NaN" "PInf - NInf = PInf" "NInf - PInf = NInf"
  "PInf * Num v = signed_inf v" "Num u * PInf = signed_inf u"
  "NInf * Num v = signed_inf (- v)" "Num u * NInf = signed_inf (- u)"
  "PInf * PInf = PInf" "NInf * NInf = PInf" "PInf * NInf = NInf" "NInf * PInf = NInf"
  "Num u / PInf = Num 0" "Num u / NInf = Num 0"
  "PInf / Num v = (if v < 0 then NInf else PInf)"
  "NInf / Num v = (if v < 0 then PInf else NInf)"
  "PInf / PInf = NaN" "PInf / NInf = NaN" "NInf / PInf = NaN" "NInf / NInf = NaN"
  by (auto simp: plus_num_def minus_num_def times_num_def divide_num_def negate_def
      sign_of_def signed_inf_def sgn_real_def split: num.splits)

lemma inf_order [simp]:
  "(Num u < PInf) = True" "(NInf < Num v) = True" "(NInf < PInf) = True"
  "(PInf < a) = False" "(a < NInf) = False"
  "(Num u \<le> PInf) = True" "(NInf \<le> Num v) = True" "(NInf \<le> PInf) = True"
  "(PInf \<le> PInf) = True" "(NInf \<le> NInf) = True"
  "(PInf \<le> Num v) = False" "(Num u \<le> NInf) = False" "(PInf \<le> NInf) = False"
  by (auto simp: less_num_def less_eq_num_def split: num.splits)

lemma Math_simps [simp]:
  "Math_max (Num u) (Num v) = Num (max u v)"
  "Math_min (Num u) (Num v) = Num (min u v)"
  "Math_max NaN a = NaN" "Math_max a NaN = NaN"
  "Math_min NaN a = NaN" "Math_min a NaN = NaN"
  "Math_cos (Num u) = Num (cos u)" "Math_sin (Num u) = Num (sin u)"
  "Math_cos NaN = NaN" "Math_sin NaN = NaN"
  by (auto simp: Math_max_def Math_min_def Math_cos_def Math_sin_def split: num.splits)

lemma Math_inf_simps [simp]:
  "Math_max PInf (Num v) = PInf" "Math_max (Num u) PInf = PInf"
  "Math_max NInf (Num v) = Num v" "Math_max (Num u) NInf = Num u"
  "Math_max PInf PInf = PInf" "Math_max NInf NInf = NInf"
  "Math_max PInf NInf = PInf" "Math_max NInf PInf = PInf"
  "Math_min PInf (Num v) = Num v" "Math_min (Num u) PInf = Num u"
  "Math_min NInf (Num v) = NInf" "Math_min (Num u) NInf = NInf"
  "Math_min PInf PInf = PInf" "Math_min NInf NInf = NInf"
  "Math_min PInf NInf = NInf" "Math_min NInf PInf = NInf"
  "Math_cos PInf = NaN" "Math_cos NInf = NaN" "Math_sin PInf = NaN" "Math_sin NInf = NaN"
  by (simp_all add: Math_max_def Math_min_def Math_cos_def Math_sin_def)

lemma finite_num_simps [simp]:
  "finite_num (Num u)" "\<not> finite_num PInf" "\<not> finite_num NInf" "\<not> finite_num NaN"
  by (simp_all add: finite_num_def)

lemma finite_num_iff: "finite_num a \<longleftrightarrow> (\<exists>u. a = Num u)"
  by (cases a) simp_all

lemma aput_code [simp]:
  "aput h [] 0 v = [v]"
  "aput h (a # xs) 0 v = v # xs"
  "aput h (a # xs) (Suc i) v = a # aput h xs i v"
  "aput h [] (Suc i) v = h # aput h [] i v"
  by (auto simp: aput_def replicate_app_Cons_same)

lemma aget_code [simp]:
  "aget h [] i = h"
  "aget h (a # xs) 0 = a"
  "aget h (a # xs) (Suc i) = aget h xs i"
  by (auto simp: aget_def)

subsection \<open>The recursion of calcRowDims\<close>

text \<open>The assignments of one pass through the body of the inner loop, and of the
  initialisation of a row.\<close>

definition row_step :: "mxGraph \<Rightarrow> nat \<Rightarrow> nat \<Rightarrow> node list \<Rightarrow> mxRadialTreeLayout
    \<Rightarrow> mxRadialTreeLayout" where
  "row_step g rowNum c cur' this =
     this\<lparr>rowMinX := aput NaN (rowMinX this) rowNum
              (Math_min (x (geometry g c)) (aget NaN (rowMinX this) rowNum)),
          rowMaxX := aput NaN (rowMaxX this) rowNum
              (Math_max (x (geometry g c) + width (geometry g c))
                 (aget NaN (rowMaxX this) rowNum)),
          rowMinCenX := aput NaN (rowMinCenX this) rowNum
              (Math_min (x (geometry g c) + width (geometry g c) / Num 2)
                 (aget NaN (rowMinCenX this) rowNum)),
          rowMaxCenX := aput NaN (rowMaxCenX this) rowNum
              (Math_max (x (geometry g c) + width (geometry g c) / Num 2)
                 (aget NaN (rowMaxCenX this) rowNum)),
          rowRadi := aput NaN (rowRadi this) rowNum
              (y (geometry g c) - y (geometry g (root this))),
          row := aput None (row this) rowNum (Some cur')\<rparr>"

definition row_init :: "nat \<Rightarrow> mxRadialTreeLayout \<Rightarrow> mxRadialTreeLayout" where
  "row_init rowNum this =
     this\<lparr>rowMinX := aput NaN (rowMinX this) rowNum (centerX this),
          rowMaxX := aput NaN (rowMaxX this) rowNum (centerX this),
          rowMinCenX := aput NaN (rowMinCenX this) rowNum (centerX this),
          rowMaxCenX := aput NaN (rowMaxCenX this) rowNum (centerX this),
          row := aput None (row this) rowNum (Some [])\<rparr>"

definition row_fill :: "mxGraph \<Rightarrow> nat \<Rightarrow> node list \<Rightarrow> mxRadialTreeLayout
    \<Rightarrow> mxRadialTreeLayout" where
  "row_fill g rowNum nodes this =
     fst (calcRowDims_for g rowNum nodes (row_init rowNum this, [], False))"

definition has_children :: "node list \<Rightarrow> bool" where
  "has_children ns = list_ex (\<lambda>m. child_of m \<noteq> Null) ns"

lemma while_Node:
  "calcRowDims_while g rowNum (Node r c child nx) (this, cur, h) =
     calcRowDims_while g rowNum nx
       (row_step g rowNum c (cur @ [Node r c child nx]) this,
        cur @ [Node r c child nx], h \<or> child \<noteq> Null)"
  by (simp add: Let_def row_step_def getVertexBounds_def)

lemma for_Cons:
  "calcRowDims_for g rowNum (n # ns) s =
     calcRowDims_for g rowNum ns (calcRowDims_while g rowNum (child_of n) s)"
  by (cases n) simp_all

lemma for_result:
  "calcRowDims_for g rowNum nodes (row_init rowNum this, [], False) =
     (row_fill g rowNum nodes this, kids nodes, has_children (kids nodes))"
proof -
  have "snd (calcRowDims_for g rowNum nodes (row_init rowNum this, [], False)) =
      (kids nodes, has_children (kids nodes))"
    using for_cur [of g rowNum nodes "row_init rowNum this" "[]" False]
      for_has [of g rowNum nodes "row_init rowNum this" "[]" False]
    by (simp add: prod_eq_iff has_children_def list_ex_iff)
  then show ?thesis
    by (simp add: row_fill_def prod_eq_iff)
qed

lemma calcRowDims_rec:
  "calcRowDims this g nodes rowNum =
     (if nodes = [] then this
      else if has_children (kids nodes)
        then calcRowDims (row_fill g rowNum nodes this) g (kids nodes) (Suc rowNum)
        else row_fill g rowNum nodes this)"
proof -
  have i: "this\<lparr>rowMinX := aput NaN (rowMinX this) rowNum (centerX this),
      rowMaxX := aput NaN (rowMaxX this) rowNum (centerX this),
      rowMinCenX := aput NaN (rowMinCenX this) rowNum (centerX this),
      rowMaxCenX := aput NaN (rowMaxCenX this) rowNum (centerX this),
      row := aput None (row this) rowNum (Some [])\<rparr> = row_init rowNum this"
    by (simp add: row_init_def)
  show ?thesis
    by (subst calcRowDims.simps) (simp add: Let_def i for_result)
qed

lemma has_children_levels:
  "has_children (kids nodes) \<Longrightarrow> forest_levels (kids nodes) < forest_levels nodes"
  using kids_levels [of nodes] by (auto simp: has_children_def)

lemma calcRowDims_induct [case_names step]:
  assumes "\<And>this nodes rowNum.
      (nodes \<noteq> [] \<Longrightarrow> has_children (kids nodes) \<Longrightarrow>
         P (row_fill g rowNum nodes this) (kids nodes) (Suc rowNum))
      \<Longrightarrow> P this nodes rowNum"
  shows "P this nodes rowNum"
proof (induction "forest_levels nodes" arbitrary: this nodes rowNum rule: less_induct)
  case less
  show ?case
    by (rule assms) (rule less, rule has_children_levels)
qed

section \<open>The field angleOffset\<close>

lemma while_angleOffset:
  "calcRowDims_while g rowNum n (this\<lparr>angleOffset := a\<rparr>, cur, h) =
     (case calcRowDims_while g rowNum n (this, cur, h) of
        (this', cur', h') \<Rightarrow> (this'\<lparr>angleOffset := a\<rparr>, cur', h'))"
proof (induction n arbitrary: this cur h)
  case Null
  then show ?case by simp
next
  case (Node r c child nx)
  have "row_step g rowNum c cur' (this\<lparr>angleOffset := a\<rparr>) =
      (row_step g rowNum c cur' this)\<lparr>angleOffset := a\<rparr>" for cur'
    by (simp add: row_step_def)
  then show ?case
    by (simp only: while_Node Node.IH(2))
qed

lemma for_angleOffset:
  "calcRowDims_for g rowNum ns (this\<lparr>angleOffset := a\<rparr>, cur, h) =
     (case calcRowDims_for g rowNum ns (this, cur, h) of
        (this', cur', h') \<Rightarrow> (this'\<lparr>angleOffset := a\<rparr>, cur', h'))"
proof (induction ns arbitrary: this cur h)
  case Nil
  then show ?case by simp
next
  case (Cons n ns)
  obtain this' cur' h' where
    w: "calcRowDims_while g rowNum (child_of n) (this, cur, h) = (this', cur', h')"
    by (metis prod_cases3)
  show ?case
    using Cons.IH [of this' cur' h'] w by (simp only: for_Cons while_angleOffset prod.case)
qed

lemma row_fill_angleOffset:
  "row_fill g rowNum nodes (this\<lparr>angleOffset := a\<rparr>) =
     (row_fill g rowNum nodes this)\<lparr>angleOffset := a\<rparr>"
proof -
  have "row_init rowNum (this\<lparr>angleOffset := a\<rparr>) = (row_init rowNum this)\<lparr>angleOffset := a\<rparr>"
    by (simp add: row_init_def)
  then show ?thesis
    by (simp add: row_fill_def for_angleOffset split: prod.splits)
qed

lemma calcRowDims_angleOffset:
  "calcRowDims (this\<lparr>angleOffset := a\<rparr>) g nodes rowNum =
     (calcRowDims this g nodes rowNum)\<lparr>angleOffset := a\<rparr>"
proof (induction this nodes rowNum rule: calcRowDims_induct [where g = g])
  case (step this nodes rowNum)
  then show ?case
    by (subst (1 2) calcRowDims_rec) (simp add: row_fill_angleOffset)
qed

lemma gradients_angleOffset: "gradients (this\<lparr>angleOffset := a\<rparr>) = gradients this"
  by (simp add: gradients_def)

lemma polar_angleOffset: "polar (this\<lparr>angleOffset := a\<rparr>) = polar this"
proof -
  have h: "polar_row (this\<lparr>angleOffset := a\<rparr>) = polar_row this"
    by (intro ext) (simp add: polar_row_def cong: option.case_cong)
  show ?thesis
    by (intro ext) (simp add: polar_def h)
qed

lemma emit_angleOffset: "emit (this\<lparr>angleOffset := a\<rparr>) = emit this"
proof -
  have n: "emit_node (this\<lparr>angleOffset := a\<rparr>) = emit_node this"
    by (intro ext) (simp add: emit_node_def split: node.splits)
  have h: "emit_row (this\<lparr>angleOffset := a\<rparr>) = emit_row this"
    by (intro ext) (simp add: emit_row_def n cong: option.case_cong)
  show ?thesis
    by (intro ext) (simp add: emit_def h)
qed

lemma prepare_angleOffset:
  "prepare se (m\<lparr>layout := (layout m)\<lparr>angleOffset := a\<rparr>\<rparr>) p r =
     (case prepare se m p r of (this6, g, th) \<Rightarrow> (this6\<lparr>angleOffset := a\<rparr>, g, th))"
  by (simp add: prepare_def Let_def super_part_def set_super_def
      mxCompactTreeLayout.truncate_def split: prod.splits)

lemma execute_angleOffset:
  "execute se (m\<lparr>layout := (layout m)\<lparr>angleOffset := a\<rparr>\<rparr>) p r =
     map_sum id (\<lambda>m'. m'\<lparr>layout := (layout m')\<lparr>angleOffset := a\<rparr>\<rparr>) (execute se m p r)"
  by (simp add: execute_def prepare_angleOffset calcRowDims_angleOffset gradients_angleOffset
      polar_angleOffset emit_angleOffset Let_def split: prod.splits sum.splits)

text \<open>
  Claim C8. For every machine and every two values of the field angleOffset, execute
  ends in the same way and, when it returns, with the same vertex bounds and the same
  angles: the field is never read. The base layout cannot read it either, since it works
  on the fields of the base class.
\<close>

theorem execute_angleOffset_noninterference:
  "map_sum id (\<lambda>m'. (graph m', theta m'))
     (execute se (m\<lparr>layout := (layout m)\<lparr>angleOffset := a\<rparr>\<rparr>) p r) =
   map_sum id (\<lambda>m'. (graph m', theta m'))
     (execute se (m\<lparr>layout := (layout m)\<lparr>angleOffset := b\<rparr>\<rparr>) p r)"
  by (cases "execute se m p r") (simp_all add: execute_angleOffset)

section \<open>The reconciliation of parents and children\<close>

text \<open>The references of the nodes of a row, and of all rows. References are identities:
  the rows of a run hold every node object once, so the list has no duplicates.\<close>

fun refs :: "node list \<Rightarrow> nat list" where
  "refs [] = []"
| "refs (Null # ns) = refs ns"
| "refs (Node r c child nx # ns) = r # refs ns"

definition row_refs :: "node list option list \<Rightarrow> nat list" where
  "row_refs rows = concat (map (\<lambda>e. case e of None \<Rightarrow> [] | Some ns \<Rightarrow> refs ns) rows)"

lemma foldE_append:
  "foldE f (as @ bs) s = (case foldE f as s of Inl e \<Rightarrow> Inl e | Inr s' \<Rightarrow> foldE f bs s')"
  by (induction as arbitrary: s) (simp_all split: sum.splits)

lemma foldE_frame:
  assumes "foldE f as s = Inr s'" and "s' (r::nat) \<noteq> (s r :: num)"
  shows "\<exists>a \<in> set as. \<exists>t t'. f a t = Inr t' \<and> t' r \<noteq> t r"
  using assms
proof (induction as arbitrary: s)
  case Nil
  then show ?case by simp
next
  case (Cons a as)
  from Cons.prems(1) obtain t where t: "f a s = Inr t" and rest: "foldE f as t = Inr s'"
    by (auto split: sum.splits)
  show ?case
  proof (cases "t r = s r")
    case True
    then show ?thesis using Cons.IH [OF rest] Cons.prems(2) by auto
  next
    case False
    then show ?thesis using t by auto
  qed
qed

lemma sum_theta_counter: "snd (sum_theta th n (t, k)) = k + length (chain n)"
  by (induction n arbitrary: t k) simp_all

lemma reconcile_node_frame:
  assumes "reconcile_node nodes j th = Inr th'" and "th' r \<noteq> th r"
  shows "\<exists>c child nx. nodes ! j = Node r c child nx \<and> child \<noteq> Null"
proof (cases "nodes ! j")
  case Null
  then show ?thesis using assms by (simp add: reconcile_node_def)
next
  case (Node r' c child nx)
  obtain t k where s: "sum_theta th child (Num 0, 0) = (t, k)"
    by (cases "sum_theta th child (Num 0, 0)")
  have k: "k = length (chain child)"
    using sum_theta_counter [of th child "Num 0" 0] s by simp
  have "k > 0" and "r' = r"
    using assms Node s
    by (auto simp: reconcile_node_def Let_def split: if_splits sum.splits)
  then show ?thesis
    using Node k by (cases child) auto
qed

lemma reconcile_row_frame:
  assumes "reconcile_row nodes th = Inr th'" and "th' r \<noteq> th r"
  shows "\<exists>j c child nx. j < length nodes \<and> nodes ! j = Node r c child nx \<and> child \<noteq> Null"
proof -
  obtain j t t' where "j \<in> set [0..<length nodes]" "reconcile_node nodes j t = Inr t'"
    "t' r \<noteq> t r"
    using foldE_frame [OF assms [unfolded reconcile_row_def]] by blast
  then show ?thesis
    using reconcile_node_frame [of nodes j t t' r] by auto
qed

lemma reconcile_changes:
  assumes "reconcile rows th = Inr th'" and "th' r \<noteq> th r"
  shows "\<exists>i nodes j c child nx. Suc i < length rows \<and> rows ! i = Some nodes \<and>
           j < length nodes \<and> nodes ! j = Node r c child nx \<and> child \<noteq> Null"
proof -
  obtain i t t' where i: "i \<in> set (rev [0..<length rows - 1])"
    and f: "(case rows ! i of None \<Rightarrow> Inl TypeError | Some nodes \<Rightarrow> reconcile_row nodes t) = Inr t'"
    and d: "t' r \<noteq> t r"
    using foldE_frame [OF assms [unfolded reconcile_def]] by blast
  from f obtain nodes where n: "rows ! i = Some nodes" and rr: "reconcile_row nodes t = Inr t'"
    by (auto split: option.splits)
  from i have "Suc i < length rows" by auto
  then show ?thesis
    using reconcile_row_frame [OF rr d] n by blast
qed

lemma refs_mem: "Node r c child nx \<in> set ns \<Longrightarrow> r \<in> set (refs ns)"
  by (induction ns rule: refs.induct) auto

lemma refs_unique:
  "distinct (refs ns) \<Longrightarrow> Node r c child nx \<in> set ns \<Longrightarrow> Node r c' child' nx' \<in> set ns
     \<Longrightarrow> child' = child"
  by (induction ns rule: refs.induct) (auto dest: refs_mem)

lemma distinct_concat_nth:
  assumes "distinct (concat xss)" and "i < j" and "j < length xss"
  shows "set (xss ! i) \<inter> set (xss ! j) = {}"
proof -
  have "xss = take j xss @ xss ! j # drop (Suc j) xss"
    using assms(3) by (simp add: id_take_nth_drop)
  then have "concat xss = concat (take j xss) @ xss ! j @ concat (drop (Suc j) xss)"
    by (metis concat.simps(2) concat_append)
  then have "set (concat (take j xss)) \<inter> set (xss ! j) = {}"
    using assms(1) by (metis distinct_append inf_sup_distrib1 set_append sup_eq_bot_iff)
  moreover have "xss ! i \<in> set (take j xss)"
    using assms(2,3) by (metis in_set_conv_nth length_take min.absorb2 less_imp_le nth_take)
  ultimately show ?thesis by auto
qed

lemma row_refs_unique:
  assumes d: "distinct (row_refs rows)"
    and a: "i < length rows" "rows ! i = Some ns" "Node r c child nx \<in> set ns"
    and b: "i' < length rows" "rows ! i' = Some ns'" "Node r c' child' nx' \<in> set ns'"
  shows "i' = i \<and> child' = child"
proof -
  let ?f = "\<lambda>e. case e of None \<Rightarrow> [] | Some ns \<Rightarrow> refs ns"
  have ri: "r \<in> set (map ?f rows ! i)" and ri': "r \<in> set (map ?f rows ! i')"
    using a b by (simp_all add: refs_mem)
  have "\<not> i < i'" "\<not> i' < i"
    using distinct_concat_nth [of "map ?f rows" i i'] distinct_concat_nth [of "map ?f rows" i' i]
      d a(1) b(1) ri ri' unfolding row_refs_def by auto
  then have e: "i' = i" by simp
  have "distinct (refs ns)"
    using d a(1,2) unfolding row_refs_def
    by (metis (no_types, lifting) distinct_concat_iff length_map nth_map nth_mem option.simps(5))
  then show ?thesis
    using refs_unique a b e by auto
qed

text \<open>
  Claim C10. The reconciliation changes the angle of a reference only if a node with that
  reference stands in a row other than the last one and has a child. With distinct
  references, every leaf and every node of the outermost row keeps the angle that the
  polar phase assigned (the heap \<open>th\<close> that the reconciliation starts from).
\<close>

theorem reconcile_changes_only_parents:
  assumes "reconcile rows th = Inr th'"
  shows "(th' r \<noteq> th r \<longrightarrow>
           (\<exists>i nodes j c child nx. Suc i < length rows \<and> rows ! i = Some nodes \<and>
              j < length nodes \<and> nodes ! j = Node r c child nx \<and> child \<noteq> Null)) \<and>
         (distinct (row_refs rows) \<longrightarrow>
           (\<forall>i nodes c child nx. i < length rows \<and> rows ! i = Some nodes \<and>
              Node r c child nx \<in> set nodes \<and> (child = Null \<or> Suc i = length rows)
              \<longrightarrow> th' r = th r))"
proof (intro conjI impI allI)
  assume "th' r \<noteq> th r"
  then show "\<exists>i nodes j c child nx. Suc i < length rows \<and> rows ! i = Some nodes \<and>
              j < length nodes \<and> nodes ! j = Node r c child nx \<and> child \<noteq> Null"
    using reconcile_changes [OF assms] by simp
next
  fix i nodes c child nx
  assume d: "distinct (row_refs rows)"
    and h: "i < length rows \<and> rows ! i = Some nodes \<and>
              Node r c child nx \<in> set nodes \<and> (child = Null \<or> Suc i = length rows)"
  show "th' r = th r"
  proof (rule ccontr)
    assume "th' r \<noteq> th r"
    then obtain i' nodes' j c' child' nx' where
      c: "Suc i' < length rows" "rows ! i' = Some nodes'" "j < length nodes'"
         "nodes' ! j = Node r c' child' nx'" "child' \<noteq> Null"
      using reconcile_changes [OF assms] by blast
    have mem: "Node r c' child' nx' \<in> set nodes'"
      using c(3,4) by (metis nth_mem)
    have hi: "i < length rows" "rows ! i = Some nodes" "Node r c child nx \<in> set nodes"
      using h by auto
    have hi': "i' < length rows"
      using c(1) by simp
    have "i' = i \<and> child' = child"
      using row_refs_unique [OF d hi hi' c(2) mem] .
    then show False using h c(1,5) by auto
  qed
qed



text \<open>An example: two nodes in the first row, the second with one child.\<close>

definition ex_C :: node where "ex_C = Node 3 3 Null Null"
definition ex_B :: node where "ex_B = Node 2 2 ex_C Null"
definition ex_A :: node where "ex_A = Node 1 1 Null ex_B"
definition ex_rows :: "node list option list" where "ex_rows = [Some [ex_A, ex_B], Some [ex_C]]"
definition ex_th :: "nat \<Rightarrow> num" where
  "ex_th = (\<lambda>r. NaN)(1 := Num 1, 2 := Num 5, 3 := Num 4)"

lemma ex_reconcile: "reconcile ex_rows ex_th = Inr (ex_th(2 := Num 4))"
proof -
  have "max 4 (1 + pi / 10) = (4::real)"
    using pi_less_4 by simp
  then show ?thesis
    by (simp add: reconcile_def reconcile_row_def reconcile_node_def theta_of_def ex_rows_def
        ex_A_def ex_B_def ex_C_def ex_th_def Math_PI_def Let_def)
qed

theorem reconcile_changes_only_parents_witness:
  "reconcile ex_rows ex_th = Inr (ex_th(2 := Num 4)) \<and> distinct (row_refs ex_rows) \<and>
   (ex_th(2 := Num 4)) 2 \<noteq> ex_th 2 \<and>
   (ex_th(2 := Num 4)) 1 = ex_th 1 \<and> (ex_th(2 := Num 4)) 3 = ex_th 3"
proof -
  have d: "distinct (row_refs ex_rows)"
    by (simp add: row_refs_def ex_rows_def ex_A_def ex_B_def ex_C_def)
  have a: "(ex_th(2 := Num 4)) 1 = ex_th 1"
    using reconcile_changes_only_parents [OF ex_reconcile, of 1] d
    by (auto simp: ex_rows_def ex_A_def ex_B_def ex_C_def)
  have c: "(ex_th(2 := Num 4)) 3 = ex_th 3"
    using reconcile_changes_only_parents [OF ex_reconcile, of 3] d
    by (auto simp: ex_rows_def ex_A_def ex_B_def ex_C_def)
  have "(ex_th(2 := Num 4)) 2 \<noteq> ex_th 2"
    by (simp add: ex_th_def)
  then show ?thesis
    using ex_reconcile d a c by blast
qed

section \<open>The placement of the vertices\<close>

text \<open>The cells of the nodes of a row, and of all rows. The tree builder makes one node
  for every visited cell, so the list has no duplicates.\<close>

fun cells :: "node list \<Rightarrow> nat list" where
  "cells [] = []"
| "cells (Null # ns) = cells ns"
| "cells (Node r c child nx # ns) = c # cells ns"



lemma cells_append: "cells (ms @ ns) = cells ms @ cells ns"
  by (induction ms rule: cells.induct) simp_all

lemma cells_mem: "Node r c child nx \<in> set ns \<Longrightarrow> c \<in> set (cells ns)"
  by (induction ns rule: cells.induct) auto


lemma foldE_unchanged_all:
  "foldE f as s = Inr s' \<Longrightarrow> \<forall>a \<in> set as. \<forall>t t'. f a t = Inr t' \<longrightarrow> V t' = V t
     \<Longrightarrow> V s' = V s"
proof (induction as arbitrary: s)
  case Nil
  then show ?case by simp
next
  case (Cons a as)
  from Cons.prems(1) obtain t where t: "f a s = Inr t" and rest: "foldE f as t = Inr s'"
    by (auto split: sum.splits)
  have "V s' = V t"
    using Cons.IH [OF rest] Cons.prems(2) by simp
  moreover have "V t = V s"
    using Cons.prems(2) t by simp
  ultimately show ?case by simp
qed

lemma foldE_unchanged:
  assumes "foldE f as s = Inr s'"
    and "\<And>a t t'. a \<in> set as \<Longrightarrow> f a t = Inr t' \<Longrightarrow> V t' = V t"
  shows "V s' = V s"
  using foldE_unchanged_all [OF assms(1), of V] assms(2) by blast

lemma foldE_write:
  assumes "foldE f (pre @ a # post) s = Inr s'"
    and "\<And>b t t'. b \<in> set pre \<union> set post \<Longrightarrow> f b t = Inr t' \<Longrightarrow> V t' = V t"
    and "\<And>t t'. f a t = Inr t' \<Longrightarrow> V t' = W (V t)"
  shows "V s' = W (V s)"
proof -
  from assms(1) obtain s1 s2 where 1: "foldE f pre s = Inr s1" and 2: "f a s1 = Inr s2"
    and 3: "foldE f post s2 = Inr s'"
    by (auto simp: foldE_append split: sum.splits)
  have "V s1 = V s"
    using foldE_unchanged_all [OF 1, of V] assms(2) by blast
  moreover have "V s2 = W (V s1)"
    using assms(3) [OF 2] .
  moreover have "V s' = V s2"
    using foldE_unchanged_all [OF 3, of V] assms(2) by blast
  ultimately show ?thesis by simp
qed












subsection \<open>An example run\<close>

text \<open>
  A root with the children A and B, and a child C of B. The base layout of the example
  puts the root at (90, 0), A and B at (40, 50) and (140, 50), and C at (140, 100); every
  vertex is 20 wide and 20 high. \<open>fresh\<close> is a layout instance as the constructor leaves
  it.
\<close>

definition ex_tree :: node where "ex_tree = Node 0 0 ex_A Null"

definition ex_x :: "nat \<Rightarrow> real" where
  "ex_x c = (if c = 0 then 90 else if c = 1 then 40 else 140)"

definition ex_y :: "nat \<Rightarrow> real" where
  "ex_y c = (if c = 0 then 0 else if c = 3 then 100 else 50)"

definition ex_super :: compact_layout where
  "ex_super s g th p r =
     (s\<lparr>root := 0, node := ex_tree\<rparr>,
      g\<lparr>geometry := \<lambda>c. (geometry g c)\<lparr>x := Num (ex_x c), y := Num (ex_y c)\<rparr>\<rparr>,
      \<lambda>k. NaN)"

definition fresh :: mxRadialTreeLayout where
  "fresh = \<lparr>parent = 0, useBoundingBox = True, edgeRouting = True, levelDistance = Num 120,
     nodeDistance = Num 10, sortEdges = False, root = 0, node = Null,
     angleOffset = Num (1/2), rootx = Num 0, rooty = Num 0, autoRadius = False,
     rowMinX = [], rowMaxX = [], rowMinCenX = [], rowMaxCenX = [], rowRadi = [], row = [],
     centerX = NaN, centerY = NaN\<rparr>"

definition ex_m :: machine where
  "ex_m = \<lparr>layout = fresh,
     graph = \<lparr>edges = [(0, 1), (0, 2), (2, 3)],
       geometry = \<lambda>c. \<lparr>x = Num 0, y = Num 0, width = Num 20, height = Num 20\<rparr>\<rparr>,
     theta = \<lambda>k. NaN\<rparr>"

lemmas ex_defs = ex_m_def fresh_def ex_super_def ex_tree_def ex_A_def ex_B_def ex_C_def
  ex_x_def ex_y_def


lemmas eval_defs = execute_def prepare_def super_part_def set_super_def getVertexBounds_def
  mxCompactTreeLayout.truncate_def calcRowDims.simps gradients_def polar_def polar_row_def
  polar_node_def reconcile_def reconcile_row_def reconcile_node_def theta_of_def
  emit_def emit_row_def emit_node_def setVertexLocation_def Math_PI_def Let_def


definition ex_out :: machine where
  "ex_out =
     \<lparr>layout = fresh\<lparr>parent := 0, useBoundingBox := False, edgeRouting := False,
        node := ex_tree,
        rowMinX := [Num 40, Num 100], rowMaxX := [Num 160, Num 160],
        rowMinCenX := [Num 50, Num 100], rowMaxCenX := [Num 150, Num 150],
        rowRadi := [Num 50, Num 100], row := [Some [ex_A, ex_B], Some [ex_C]],
        centerX := Num 100, centerY := Num 10\<rparr>,
      graph = \<lparr>edges = [(0, 1), (0, 2), (2, 3)],
        geometry = (\<lambda>c. \<lparr>x = Num (ex_x c), y = Num (ex_y c), width = Num 20, height = Num 20\<rparr>)
          (1 := \<lparr>x = Num (90 + 50 * cos (pi / 6)), y = Num (50 * sin (pi / 6)),
                 width = Num 20, height = Num 20\<rparr>,
           2 := \<lparr>x = Num (90 + 50 * cos (16 * pi / 11)), y = Num (50 * sin (16 * pi / 11)),
                 width = Num 20, height = Num 20\<rparr>,
           3 := \<lparr>x = Num (90 + 100 * cos (16 * pi / 11)), y = Num (100 * sin (16 * pi / 11)),
                 width = Num 20, height = Num 20\<rparr>)\<rparr>,
      theta = (\<lambda>k. NaN)(1 := Num (pi / 6), 3 := Num (16 * pi / 11), 2 := Num (16 * pi / 11))\<rparr>"

lemma ex_execute: "execute ex_super ex_m 0 None = Inr ex_out"
  by (simp add: ex_out_def eval_defs ex_defs cong: let_weak_cong)

section \<open>The rows of calcRowDims\<close>

lemma aget_aput: "aget h (aput h xs n v) j = (if j = n then v else aget h xs j)"
  by (auto simp: aget_def aput_def nth_append)

lemma length_aput: "length (aput h xs n v) = max (length xs) (Suc n)"
  by (auto simp: aput_def)

lemma aput_aput: "aput h (aput h xs n u) n v = aput h xs n v"
proof -
  have "(replicate k h @ [u])[k := v] = replicate k h @ [v]" for k
    by (metis length_replicate list_update_length)
  then show ?thesis
    by (auto simp: aput_def list_update_append)
qed

text \<open>The values that the loops leave in a row, as functions of the cells of the row.\<close>

definition row_dims ::
  "mxGraph \<Rightarrow> nat \<Rightarrow> nat list \<Rightarrow> node list \<Rightarrow> mxRadialTreeLayout \<Rightarrow> mxRadialTreeLayout" where
  "row_dims g rowNum cs cur this =
     this\<lparr>rowMinX := aput NaN (rowMinX this) rowNum
              (foldl (\<lambda>v c. Math_min (x (geometry g c)) v) (centerX this) cs),
          rowMaxX := aput NaN (rowMaxX this) rowNum
              (foldl (\<lambda>v c. Math_max (x (geometry g c) + width (geometry g c)) v)
                 (centerX this) cs),
          rowMinCenX := aput NaN (rowMinCenX this) rowNum
              (foldl (\<lambda>v c. Math_min (x (geometry g c) + width (geometry g c) / Num 2) v)
                 (centerX this) cs),
          rowMaxCenX := aput NaN (rowMaxCenX this) rowNum
              (foldl (\<lambda>v c. Math_max (x (geometry g c) + width (geometry g c) / Num 2) v)
                 (centerX this) cs),
          rowRadi := (if cs = [] then rowRadi this
                      else aput NaN (rowRadi this) rowNum
                             (y (geometry g (last cs)) - y (geometry g (root this)))),
          row := aput None (row this) rowNum (Some cur)\<rparr>"

lemma row_init_dims: "row_init rowNum this = row_dims g rowNum [] [] this"
  by (simp add: row_init_def row_dims_def)

lemma row_step_dims:
  "row_step g rowNum c cur' (row_dims g rowNum cs cur this) =
     row_dims g rowNum (cs @ [c]) cur' this"
  by (simp add: row_step_def row_dims_def aget_aput aput_aput)

lemma cells_chain_Node: "cells (chain (Node r c child nx)) = c # cells (chain nx)"
  by simp

lemma has_children_simps [simp]:
  "has_children [] = False"
  "has_children (n # ns) = (child_of n \<noteq> Null \<or> has_children ns)"
  "has_children (ms @ ns) = (has_children ms \<or> has_children ns)"
  by (auto simp: has_children_def)

lemma while_dims:
  "calcRowDims_while g rowNum n (row_dims g rowNum cs cur this, cur, h) =
     (row_dims g rowNum (cs @ cells (chain n)) (cur @ chain n) this, cur @ chain n,
      h \<or> has_children (chain n))"
proof (induction n arbitrary: cs cur h)
  case Null
  then show ?case by simp
next
  case (Node r c child nx)
  show ?case
    by (simp only: while_Node row_step_dims Node.IH(2)) (simp add: disj_ac)
qed

lemma kids_Cons: "kids (n # ns) = chain (child_of n) @ kids ns"
  by (simp add: kids_def)

lemma kids_Nil: "kids [] = []"
  by (simp add: kids_def)

lemma for_dims:
  "calcRowDims_for g rowNum ns (row_dims g rowNum cs cur this, cur, h) =
     (row_dims g rowNum (cs @ cells (kids ns)) (cur @ kids ns) this, cur @ kids ns,
      h \<or> has_children (kids ns))"
proof (induction ns arbitrary: cs cur h)
  case Nil
  then show ?case by (simp add: kids_Nil)
next
  case (Cons n ns)
  show ?case
    by (simp only: for_Cons while_dims Cons.IH) (simp add: kids_Cons cells_append disj_ac)
qed

lemma row_fill_dims:
  "row_fill g rowNum ns this = row_dims g rowNum (cells (kids ns)) (kids ns) this"
  using for_dims [of g rowNum ns "[]" "[]" this False]
  by (simp add: row_fill_def row_init_dims [of rowNum this g])


text \<open>The rows that calcRowDims builds from a list of nodes: their children, the children
  of those, and so on while a row has a node with a child.\<close>

function rows_from :: "node list \<Rightarrow> node list list" where
  "rows_from ns =
     (if ns = [] then []
      else kids ns # (if has_children (kids ns) then rows_from (kids ns) else []))"
  by pat_completeness auto
termination
  by (relation "measure forest_levels") (simp_all add: has_children_levels)

declare rows_from.simps [simp del]

text \<open>Assignments to consecutive entries of an array.\<close>

fun aputs :: "'a \<Rightarrow> 'a list \<Rightarrow> nat \<Rightarrow> 'a list \<Rightarrow> 'a list" where
  "aputs h xs n [] = xs"
| "aputs h xs n (v # vs) = aputs h (aput h xs n v) (Suc n) vs"

definition minX_of :: "mxGraph \<Rightarrow> num \<Rightarrow> node list \<Rightarrow> num" where
  "minX_of g cx ks = foldl (\<lambda>v c. Math_min (x (geometry g c)) v) cx (cells ks)"

definition maxX_of :: "mxGraph \<Rightarrow> num \<Rightarrow> node list \<Rightarrow> num" where
  "maxX_of g cx ks =
     foldl (\<lambda>v c. Math_max (x (geometry g c) + width (geometry g c)) v) cx (cells ks)"

definition minCenX_of :: "mxGraph \<Rightarrow> num \<Rightarrow> node list \<Rightarrow> num" where
  "minCenX_of g cx ks =
     foldl (\<lambda>v c. Math_min (x (geometry g c) + width (geometry g c) / Num 2) v) cx (cells ks)"

definition maxCenX_of :: "mxGraph \<Rightarrow> num \<Rightarrow> node list \<Rightarrow> num" where
  "maxCenX_of g cx ks =
     foldl (\<lambda>v c. Math_max (x (geometry g c) + width (geometry g c) / Num 2) v) cx (cells ks)"

definition radi_of :: "mxGraph \<Rightarrow> nat \<Rightarrow> node list \<Rightarrow> num" where
  "radi_of g rt ks = y (geometry g (last (cells ks))) - y (geometry g rt)"

lemma kids_no_Null: "Null \<notin> set (kids ns)"
proof -
  have "Null \<notin> set (chain n)" for n
    by (induction n) simp_all
  then show ?thesis
    by (auto simp: kids_def)
qed

lemma cells_Nil_iff: "Null \<notin> set ks \<Longrightarrow> cells ks = [] \<longleftrightarrow> ks = []"
  by (induction ks rule: cells.induct) simp_all

lemma row_fill_closed:
  "row_fill g n ns this =
     this\<lparr>rowMinX := aput NaN (rowMinX this) n (minX_of g (centerX this) (kids ns)),
          rowMaxX := aput NaN (rowMaxX this) n (maxX_of g (centerX this) (kids ns)),
          rowMinCenX := aput NaN (rowMinCenX this) n (minCenX_of g (centerX this) (kids ns)),
          rowMaxCenX := aput NaN (rowMaxCenX this) n (maxCenX_of g (centerX this) (kids ns)),
          rowRadi := (if kids ns = [] then rowRadi this
                      else aput NaN (rowRadi this) n (radi_of g (root this) (kids ns))),
          row := aput None (row this) n (Some (kids ns))\<rparr>"
proof -
  have "cells (kids ns) = [] \<longleftrightarrow> kids ns = []"
    using cells_Nil_iff kids_no_Null by blast
  then show ?thesis
    by (simp add: row_fill_dims row_dims_def minX_of_def maxX_of_def minCenX_of_def
        maxCenX_of_def radi_of_def)
qed

lemma calcRowDims_closed:
  "calcRowDims this g ns n =
     this\<lparr>rowMinX := aputs NaN (rowMinX this) n (map (minX_of g (centerX this)) (rows_from ns)),
          rowMaxX := aputs NaN (rowMaxX this) n (map (maxX_of g (centerX this)) (rows_from ns)),
          rowMinCenX :=
            aputs NaN (rowMinCenX this) n (map (minCenX_of g (centerX this)) (rows_from ns)),
          rowMaxCenX :=
            aputs NaN (rowMaxCenX this) n (map (maxCenX_of g (centerX this)) (rows_from ns)),
          rowRadi := aputs NaN (rowRadi this) n
            (map (radi_of g (root this)) (filter (\<lambda>ks. ks \<noteq> []) (rows_from ns))),
          row := aputs None (row this) n (map Some (rows_from ns))\<rparr>"
proof (induction this ns n rule: calcRowDims_induct [where g = g])
  case (step this ns n)
  show ?case
  proof (cases "ns = []")
    case True
    have "rows_from ns = []"
      using True by (subst rows_from.simps) simp
    moreover have "calcRowDims this g ns n = this"
      using True by (subst calcRowDims_rec) simp
    ultimately show ?thesis
      by simp
  next
    case False
    have c: "cells (kids ns) = [] \<longleftrightarrow> kids ns = []"
      using cells_Nil_iff kids_no_Null by blast
    show ?thesis
    proof (cases "has_children (kids ns)")
      case True
      then have k: "kids ns \<noteq> []" by auto
      have r: "rows_from ns = kids ns # rows_from (kids ns)"
        using False True by (subst rows_from.simps) simp
      have f: "calcRowDims this g ns n = calcRowDims (row_fill g n ns this) g (kids ns) (Suc n)"
        using False True by (subst calcRowDims_rec) simp
      show ?thesis
        unfolding f step [OF False True] r
        by (simp add: row_fill_closed k)
    next
      case h: False
      have r: "rows_from ns = [kids ns]"
        using False h by (subst rows_from.simps) simp
      have f: "calcRowDims this g ns n = row_fill g n ns this"
        using False h by (subst calcRowDims_rec) simp
      show ?thesis
        unfolding f r
        by (simp add: row_fill_closed)
    qed
  qed
qed


lemma length_aputs:
  "length (aputs h xs n vs) = (if vs = [] then length xs else max (length xs) (n + length vs))"
  by (induction vs arbitrary: xs n) (auto simp: length_aput)

lemma aget_aputs:
  "aget h (aputs h xs n vs) j =
     (if n \<le> j \<and> j < n + length vs then vs ! (j - n) else aget h xs j)"
proof (induction vs arbitrary: xs n)
  case Nil
  then show ?case by auto
next
  case (Cons v vs)
  show ?case
    by (auto simp: Cons.IH aget_aput Suc_diff_le nth_Cons')
qed

lemma list_eq_aget:
  "xs = ys \<longleftrightarrow> length xs = length ys \<and> (\<forall>j. aget h xs j = aget h ys j)"
  by (auto simp: list_eq_iff_nth_eq aget_def)


lemma aputs_end: "aputs h xs (length xs) vs = xs @ vs"
proof (induction vs arbitrary: xs)
  case Nil
  then show ?case by simp
next
  case (Cons v vs)
  have "aput h xs (length xs) v = xs @ [v]"
    by (simp add: aput_def)
  then show ?case
    using Cons.IH [of "xs @ [v]"] by simp
qed

lemma aputs_fresh: "aputs h [] 0 vs = vs"
  using aputs_end [of h "[]" vs] by simp

lemma aputs_nth:
  "i < length vs \<Longrightarrow> aget h (aputs h xs n vs) (n + i) = vs ! i"
  by (simp add: aget_aputs)


lemma rows_from_Nil: "rows_from [] = []"
  by (subst rows_from.simps) simp

lemma rows_from_Cons:
  "ns \<noteq> [] \<Longrightarrow>
   rows_from ns = kids ns # (if has_children (kids ns) then rows_from (kids ns) else [])"
  by (subst rows_from.simps) simp

lemma kids_append: "kids (ms @ ns) = kids ms @ kids ns"
  by (simp add: kids_def)

lemma levels_kids_chain: "forest_levels (kids (chain n)) = levels n - 1"
proof (induction n)
  case Null
  then show ?case by (simp add: kids_Nil)
next
  case (Node r c child nx)
  then show ?case
    by (simp add: kids_Cons forest_levels_append forest_levels_chain)
qed

lemma levels_kids_kids: "forest_levels (kids (kids ns)) = forest_levels (kids ns) - 1"
proof (induction ns)
  case Nil
  then show ?case by (simp add: kids_Nil)
next
  case (Cons n ns)
  then show ?case
    by (simp add: kids_Cons kids_append forest_levels_append levels_kids_chain
        forest_levels_chain)
qed

lemma levels_no_Null: "Null \<notin> set ks \<Longrightarrow> forest_levels ks = 0 \<longleftrightarrow> ks = []"
proof (induction ks)
  case Nil
  then show ?case by simp
next
  case (Cons k ks)
  then show ?case by (cases k) auto
qed

lemma has_children_kids: "has_children ks \<longleftrightarrow> kids ks \<noteq> []"
proof -
  have "chain n = [] \<longleftrightarrow> n = Null" for n
    by (cases n) simp_all
  then show ?thesis
    by (auto simp: has_children_def kids_def list_ex_iff)
qed

lemma has_children_levels_iff: "has_children ks \<longleftrightarrow> 0 < forest_levels (kids ks)"
  using levels_no_Null [OF kids_no_Null, of ks] has_children_kids [of ks] by auto

lemma length_rows_from:
  "ns \<noteq> [] \<Longrightarrow> length (rows_from ns) = max 1 (forest_levels (kids ns))"
proof (induction ns rule: rows_from.induct)
  case (1 ns)
  show ?case
  proof (cases "has_children (kids ns)")
    case True
    then have k: "kids ns \<noteq> []" by auto
    have "0 < forest_levels (kids (kids ns))"
      using True has_children_levels_iff by blast
    then have "2 \<le> forest_levels (kids ns)"
      using levels_kids_kids [of ns] by arith
    then show ?thesis
      using "1.IH" [OF "1.prems" True k] "1.prems" True levels_kids_kids [of ns]
      by (simp add: rows_from_Cons)
  next
    case False
    then have "forest_levels (kids (kids ns)) = 0"
      using has_children_levels_iff by blast
    then have "forest_levels (kids ns) \<le> 1"
      using levels_kids_kids [of ns] by arith
    then show ?thesis
      using "1.prems" False by (simp add: rows_from_Cons)
  qed
qed

lemma rows_from_0: "ns \<noteq> [] \<Longrightarrow> rows_from ns ! 0 = kids ns"
  by (simp add: rows_from_Cons)

lemma rows_from_Suc:
  "Suc i < length (rows_from ns) \<Longrightarrow>
   has_children (rows_from ns ! i) \<and> rows_from ns ! Suc i = kids (rows_from ns ! i)"
proof (induction ns arbitrary: i rule: rows_from.induct)
  case (1 ns)
  have ne: "ns \<noteq> []"
    using "1.prems" by (auto simp: rows_from_Nil)
  have h: "has_children (kids ns)"
    using "1.prems" ne by (auto simp: rows_from_Cons split: if_splits)
  then have k: "kids ns \<noteq> []" by auto
  have r: "rows_from ns = kids ns # rows_from (kids ns)"
    using ne h by (simp add: rows_from_Cons)
  show ?case
  proof (cases i)
    case 0
    then show ?thesis
      using r h k by (simp add: rows_from_0)
  next
    case (Suc j)
    then show ?thesis
      using "1.IH" [OF ne h, of j] "1.prems" r by simp
  qed
qed

lemma rows_from_nonempty:
  assumes "i < length (rows_from ns)" and "rows_from ns ! i = []"
  shows "rows_from ns = [[]]"
proof -
  have ne: "ns \<noteq> []"
    using assms(1) by (auto simp: rows_from_Nil)
  have i0: "i = 0"
  proof (cases i)
    case 0
    then show ?thesis .
  next
    case (Suc j)
    then have "rows_from ns ! i = kids (rows_from ns ! j)" "has_children (rows_from ns ! j)"
      using rows_from_Suc [of j ns] assms(1) by simp_all
    then show ?thesis
      using assms(2) has_children_kids by simp
  qed
  then have "kids ns = []"
    using assms(2) ne by (simp add: rows_from_0)
  then show ?thesis
    using ne by (simp add: rows_from_Cons)
qed

lemma rows_from_filter:
  "filter (\<lambda>ks. ks \<noteq> []) (rows_from ns) = (if rows_from ns = [[]] then [] else rows_from ns)"
proof (cases "rows_from ns = [[]]")
  case True
  then show ?thesis by simp
next
  case False
  then have "\<forall>ks \<in> set (rows_from ns). ks \<noteq> []"
    using rows_from_nonempty [of _ ns] by (metis in_set_conv_nth)
  then show ?thesis
    using False by simp
qed


subsection \<open>Termination and the number of rows\<close>

text \<open>
  calcRowDims is a total function: its recursion descends one level of the finite tree
  with each call (the termination proof above).
\<close>

text \<open>The number of times the recursive call of calcRowDims is executed.\<close>

function recursive_calls :: "node list \<Rightarrow> nat" where
  "recursive_calls ns =
     (if ns = [] then 0
      else if has_children (kids ns) then Suc (recursive_calls (kids ns)) else 0)"
  by pat_completeness auto
termination
  by (relation "measure forest_levels") (simp_all add: has_children_levels)

declare recursive_calls.simps [simp del]

lemma recursive_calls_rows: "recursive_calls ns = length (rows_from ns) - 1"
proof (induction ns rule: rows_from.induct)
  case (1 ns)
  show ?case
  proof (cases "ns = []")
    case True
    then show ?thesis
      by (subst recursive_calls.simps) (simp add: rows_from_Nil)
  next
    case False
    show ?thesis
    proof (cases "has_children (kids ns)")
      case True
      then have k: "kids ns \<noteq> []" by auto
      have "length (rows_from (kids ns)) \<noteq> 0"
        using k by (simp add: rows_from_Cons)
      then show ?thesis
        using "1.IH" [OF False True] False True
        by (subst recursive_calls.simps) (simp add: rows_from_Cons)
    next
      case h: False
      then show ?thesis
        using False by (subst recursive_calls.simps) (simp add: rows_from_Cons)
    qed
  qed
qed

lemma depth_rows: "length (rows_from [n0]) = max 1 (depth n0)"
  using length_rows_from [of "[n0]"]
  by (simp add: depth_def kids_Cons kids_Nil forest_levels_chain)

text \<open>
  Claim C6, amended. For the call \<open>calcRowDims([node], 0)\<close> of execute and a tree of depth
  \<open>d\<close> (the root at depth 0), let \<open>k = max 1 d\<close>. The recursive call is executed \<open>k - 1\<close>
  times, which is at most \<open>d\<close>; the rows 0 to \<open>k - 1\<close> are assigned without a hole; the call
  for row \<open>i + 1\<close> happens only when a node of row \<open>i\<close> has a child, and row \<open>i + 1\<close> holds the
  children of row \<open>i\<close>; no entry of any row array at an index from \<open>k\<close> on is assigned. For a
  root without children \<open>k\<close> is 1: the entry 0 is assigned (an empty row) although the depth
  is 0.
\<close>

theorem calcRowDims_rows_bound:
  "recursive_calls [n0] = max 1 (depth n0) - 1 \<and>
   length (row (calcRowDims this g [n0] 0)) = max (length (row this)) (max 1 (depth n0)) \<and>
   (\<forall>i < max 1 (depth n0). \<exists>ks.
      aget None (row (calcRowDims this g [n0] 0)) i = Some ks \<and>
      (Suc i < max 1 (depth n0) \<longrightarrow> has_children ks \<and>
         aget None (row (calcRowDims this g [n0] 0)) (Suc i) = Some (kids ks))) \<and>
   (\<forall>i \<ge> max 1 (depth n0).
      aget None (row (calcRowDims this g [n0] 0)) i = aget None (row this) i \<and>
      aget NaN (rowMinX (calcRowDims this g [n0] 0)) i = aget NaN (rowMinX this) i \<and>
      aget NaN (rowMaxX (calcRowDims this g [n0] 0)) i = aget NaN (rowMaxX this) i \<and>
      aget NaN (rowMinCenX (calcRowDims this g [n0] 0)) i = aget NaN (rowMinCenX this) i \<and>
      aget NaN (rowMaxCenX (calcRowDims this g [n0] 0)) i = aget NaN (rowMaxCenX this) i \<and>
      aget NaN (rowRadi (calcRowDims this g [n0] 0)) i = aget NaN (rowRadi this) i)"
proof -
  let ?d = "max 1 (depth n0)"
  have l: "length (rows_from [n0]) = ?d"
    by (rule depth_rows)
  have f: "length (filter (\<lambda>ks. ks \<noteq> []) (rows_from [n0])) \<le> ?d"
    using l by (metis length_filter_le)
  have 1: "recursive_calls [n0] = ?d - 1"
    by (simp add: recursive_calls_rows l)
  have 2: "length (row (calcRowDims this g [n0] 0)) = max (length (row this)) ?d"
    using l by (auto simp: calcRowDims_closed length_aputs)
  have 3: "\<exists>ks. aget None (row (calcRowDims this g [n0] 0)) i = Some ks \<and>
      (Suc i < ?d \<longrightarrow> has_children ks \<and>
         aget None (row (calcRowDims this g [n0] 0)) (Suc i) = Some (kids ks))"
    if "i < ?d" for i
    using that l rows_from_Suc [of i "[n0]"]
    by (auto simp: calcRowDims_closed aget_aputs)
  have 4: "aget None (row (calcRowDims this g [n0] 0)) i = aget None (row this) i \<and>
      aget NaN (rowMinX (calcRowDims this g [n0] 0)) i = aget NaN (rowMinX this) i \<and>
      aget NaN (rowMaxX (calcRowDims this g [n0] 0)) i = aget NaN (rowMaxX this) i \<and>
      aget NaN (rowMinCenX (calcRowDims this g [n0] 0)) i = aget NaN (rowMinCenX this) i \<and>
      aget NaN (rowMaxCenX (calcRowDims this g [n0] 0)) i = aget NaN (rowMaxCenX this) i \<and>
      aget NaN (rowRadi (calcRowDims this g [n0] 0)) i = aget NaN (rowRadi this) i"
    if "?d \<le> i" for i
  proof -
    have "\<not> i < length (rows_from [n0])"
      and "\<not> i < length (filter (\<lambda>ks. ks \<noteq> []) (rows_from [n0]))"
      using that l f by linarith+
    then show ?thesis
      by (simp add: calcRowDims_closed aget_aputs)
  qed
  show ?thesis
    using 1 2 3 4 by blast
qed


lemma ex_calc_row:
  "row (calcRowDims fresh (graph ex_m) [ex_tree] 0) = [Some [ex_A, ex_B], Some [ex_C]]"
  by (simp add: calcRowDims.simps fresh_def ex_tree_def ex_A_def ex_B_def ex_C_def
      getVertexBounds_def Let_def cong: let_weak_cong)

theorem calcRowDims_rows_bound_witness:
  "depth ex_tree = 2 \<and> recursive_calls [ex_tree] = 1 \<and>
   row (calcRowDims fresh (graph ex_m) [ex_tree] 0) = [Some [ex_A, ex_B], Some [ex_C]] \<and>
   has_children [ex_A, ex_B] \<and> kids [ex_A, ex_B] = [ex_C] \<and>
   aget None (row (calcRowDims fresh (graph ex_m) [ex_tree] 0)) 2 = aget None (row fresh) 2"
proof -
  have d: "depth ex_tree = 2"
    by (simp add: depth_def ex_tree_def ex_A_def ex_B_def ex_C_def)
  have k: "has_children [ex_A, ex_B]" "kids [ex_A, ex_B] = [ex_C]"
    by (simp_all add: kids_def ex_A_def ex_B_def ex_C_def)
  show ?thesis
    using calcRowDims_rows_bound [of ex_tree fresh "graph ex_m"] d k ex_calc_row by simp
qed

text \<open>
  Claim C6 as stated fails for a root without children: the depth is 0, and the entry 0
  of the row array is assigned.
\<close>

theorem calcRowDims_populates_index_at_depth:
  "depth (Node 0 0 Null Null) = 0 \<and>
   aget None (row (calcRowDims fresh (graph ex_m) [Node 0 0 Null Null] 0)) 0 = Some [] \<and>
   aget None (row fresh) 0 = None"
  by (simp add: depth_def calcRowDims.simps fresh_def Let_def cong: let_weak_cong)

subsection \<open>A root without children\<close>

lemma prepare_arrays:
  assumes "prepare se m p r = (this6, g, th)"
  shows "row this6 = row (layout m)"
  using assms
  by (auto simp: prepare_def Let_def set_super_def split: prod.splits)

lemma rows_from_childless: "child_of n0 = Null \<Longrightarrow> rows_from [n0] = [[]]"
  by (simp add: rows_from_Cons kids_Cons kids_Nil)

text \<open>
  Claim C5, amended. When the root node has no child and the row array of the instance is
  empty (a new instance), execute returns, the radial phases move no vertex (the graph is
  as the base layout left it, so the root keeps its position), and the row array holds
  exactly one row, which is empty.
\<close>

theorem execute_single_vertex:
  assumes "prepare se m p r = (this6, g, th)" and "child_of (node this6) = Null"
    and "row (layout m) = []"
  shows "\<exists>m'. execute se m p r = Inr m' \<and> graph m' = g \<and> theta m' = th \<and>
           row (layout m') = [Some []]"
proof -
  have r: "row this6 = []"
    using prepare_arrays [OF assms(1)] assms(3) by simp
  have c: "row (calcRowDims this6 g [node this6] 0) = [Some []]"
    by (simp add: calcRowDims_closed rows_from_childless [OF assms(2)] r)
  show ?thesis
    by (simp add: execute_def assms(1) c polar_def polar_row_def reconcile_def emit_def
        emit_row_def split: prod.splits)
qed

text \<open>A graph of one vertex.\<close>

definition single_super :: compact_layout where
  "single_super s g th p r = (s\<lparr>root := 0, node := Node 0 0 Null Null\<rparr>, g, th)"

definition single_out :: machine where
  "single_out =
     \<lparr>layout = fresh\<lparr>parent := 0, useBoundingBox := False, edgeRouting := False,
        node := Node 0 0 Null Null,
        rowMinX := [Num 10], rowMaxX := [Num 10], rowMinCenX := [Num 10],
        rowMaxCenX := [Num 10], row := [Some []],
        centerX := Num 10, centerY := Num 10\<rparr>,
      graph = graph ex_m, theta = theta ex_m\<rparr>"

lemma single_prepare:
  "prepare single_super ex_m 0 None =
     (fresh\<lparr>parent := 0, useBoundingBox := False, edgeRouting := False,
        node := Node 0 0 Null Null, centerX := Num 10, centerY := Num 10\<rparr>,
      graph ex_m, theta ex_m)"
  by (simp add: prepare_def single_super_def ex_m_def fresh_def super_part_def set_super_def
      getVertexBounds_def mxCompactTreeLayout.truncate_def Let_def cong: let_weak_cong)

lemma single_execute: "execute single_super ex_m 0 None = Inr single_out"
  by (simp add: single_out_def eval_defs single_super_def ex_m_def fresh_def
      cong: let_weak_cong)

theorem execute_single_vertex_witness:
  "execute single_super ex_m 0 None = Inr single_out \<and> graph single_out = graph ex_m \<and>
     theta single_out = theta ex_m \<and> row (layout single_out) = [Some []]"
  using execute_single_vertex [OF single_prepare] single_execute by (simp add: ex_m_def fresh_def)

text \<open>
  Claim C5 as stated says that zero rows are produced; the row array has length 1.
\<close>

theorem execute_single_vertex_one_row:
  "execute single_super ex_m 0 None = Inr single_out \<and> length (row (layout single_out)) = 1"
  using single_execute by (simp add: single_out_def)


subsection \<open>The dimensions of a row\<close>

lemma foldl_Math_min:
  "\<forall>c \<in> set cs. finite_num (f c) \<Longrightarrow>
   foldl (\<lambda>v c. Math_min (f c) v) (Num a) cs = Num (fold min (map (\<lambda>c. real_of (f c)) cs) a)"
proof (induction cs arbitrary: a)
  case Nil
  then show ?case by simp
next
  case (Cons c cs)
  obtain u where u: "f c = Num u"
    using Cons.prems by (auto simp: finite_num_iff)
  show ?case
    using Cons.IH [of "min u a"] Cons.prems u by simp
qed

lemma foldl_Math_max:
  "\<forall>c \<in> set cs. finite_num (f c) \<Longrightarrow>
   foldl (\<lambda>v c. Math_max (f c) v) (Num a) cs = Num (fold max (map (\<lambda>c. real_of (f c)) cs) a)"
proof (induction cs arbitrary: a)
  case Nil
  then show ?case by simp
next
  case (Cons c cs)
  obtain u where u: "f c = Num u"
    using Cons.prems by (auto simp: finite_num_iff)
  show ?case
    using Cons.IH [of "max u a"] Cons.prems u by simp
qed

lemma minX_of_Min:
  assumes "\<forall>c \<in> set (cells ks). finite_num (x (geometry g c))"
  shows "minX_of g (Num cx) ks =
           Num (Min (insert cx ((\<lambda>c. real_of (x (geometry g c))) ` set (cells ks))))"
  using foldl_Math_min [OF assms, of cx]
  by (simp add: minX_of_def Min.set_eq_fold [symmetric])

lemma maxX_of_Max:
  assumes "\<forall>c \<in> set (cells ks). finite_num (x (geometry g c) + width (geometry g c))"
  shows "maxX_of g (Num cx) ks =
           Num (Max (insert cx ((\<lambda>c. real_of (x (geometry g c) + width (geometry g c)))
             ` set (cells ks))))"
  using foldl_Math_max [OF assms, of cx]
  by (simp add: maxX_of_def Max.set_eq_fold [symmetric])

text \<open>
  Claim C4, amended. On an instance with an empty row array and a finite \<open>centerX\<close>, for
  every populated row \<open>i\<close> whose vertices have finite x and width: \<open>rowMinX[i]\<close> is the minimum
  of \<open>centerX\<close> and of x over the nodes of the row, \<open>rowMaxX[i]\<close> is the maximum of \<open>centerX\<close> and
  of x + width over the nodes of the row, and \<open>rowRadi[i]\<close> is the y of the last node of the
  row minus the y of the root (the y-distance of the row when its vertices share one y).
\<close>

theorem calcRowDims_row_extent:
  assumes "row this = []" and "centerX this = Num cx"
    and "i < length (row (calcRowDims this g [n0] 0))"
    and "row (calcRowDims this g [n0] 0) ! i = Some ks" and "ks \<noteq> []"
    and "\<forall>c \<in> set (cells ks). finite_num (x (geometry g c)) \<and>
           finite_num (width (geometry g c))"
  shows "aget NaN (rowMinX (calcRowDims this g [n0] 0)) i =
           Num (Min (insert cx ((\<lambda>c. real_of (x (geometry g c))) ` set (cells ks)))) \<and>
         aget NaN (rowMaxX (calcRowDims this g [n0] 0)) i =
           Num (Max (insert cx ((\<lambda>c. real_of (x (geometry g c) + width (geometry g c)))
             ` set (cells ks)))) \<and>
         aget NaN (rowRadi (calcRowDims this g [n0] 0)) i =
           y (geometry g (last (cells ks))) - y (geometry g (root this))"
proof -
  have r: "row (calcRowDims this g [n0] 0) = map Some (rows_from [n0])"
    by (simp add: calcRowDims_closed assms(1) aputs_fresh)
  have i: "i < length (rows_from [n0])" and ks: "rows_from [n0] ! i = ks"
    using assms(3,4) by (simp_all add: r)
  have ne: "rows_from [n0] \<noteq> [[]]"
    using i ks assms(5) by (cases i) auto
  have s: "\<forall>c \<in> set (cells ks). finite_num (x (geometry g c) + width (geometry g c))"
    using assms(6) by (auto simp: finite_num_iff)
  show ?thesis
    using i ks ne minX_of_Min [of ks g cx] maxX_of_Max [OF s, of cx] assms(2,6)
    by (simp add: calcRowDims_closed aget_aputs rows_from_filter radi_of_def)
qed

lemma ex_prepare:
  "prepare ex_super ex_m 0 None =
     (fresh\<lparr>parent := 0, useBoundingBox := False, edgeRouting := False,
        node := ex_tree, centerX := Num 100, centerY := Num 10\<rparr>,
      \<lparr>edges = [(0, 1), (0, 2), (2, 3)],
       geometry = \<lambda>c. \<lparr>x = Num (ex_x c), y = Num (ex_y c), width = Num 20, height = Num 20\<rparr>\<rparr>,
      \<lambda>k. NaN)"
  by (simp add: prepare_def ex_super_def ex_m_def fresh_def super_part_def set_super_def
      getVertexBounds_def ex_x_def ex_y_def mxCompactTreeLayout.truncate_def Let_def
      cong: let_weak_cong)

definition ex_this :: mxRadialTreeLayout where
  "ex_this = fst (prepare ex_super ex_m 0 None)"

definition ex_g :: mxGraph where
  "ex_g = fst (snd (prepare ex_super ex_m 0 None))"

lemma ex_calc:
  "calcRowDims ex_this ex_g [ex_tree] 0 = layout ex_out"
  by (simp add: ex_this_def ex_g_def ex_prepare ex_out_def calcRowDims.simps fresh_def
      ex_tree_def ex_A_def ex_B_def ex_C_def ex_x_def ex_y_def getVertexBounds_def Let_def
      cong: let_weak_cong)

text \<open>
  Claim C4 as stated fails where a row lies to one side of the center: in the example the
  second row is the vertex C at x = 140, and \<open>rowMinX[1]\<close> is \<open>centerX\<close> = 100.
\<close>

theorem calcRowDims_rowMinX_counterexample:
  "aget None (row (calcRowDims ex_this ex_g [ex_tree] 0)) 1 = Some [ex_C] \<and>
   cells [ex_C] = [3] \<and> x (geometry ex_g 3) = Num 140 \<and>
   aget NaN (rowMinX (calcRowDims ex_this ex_g [ex_tree] 0)) 1 = Num 100 \<and>
   aget NaN (rowMinX (calcRowDims ex_this ex_g [ex_tree] 0)) 1 \<noteq> x (geometry ex_g 3)"
  unfolding ex_calc
  by (simp add: ex_out_def ex_g_def ex_prepare ex_C_def ex_x_def)

theorem calcRowDims_row_extent_witness:
  "row ex_this = [] \<and> centerX ex_this = Num 100 \<and>
   row (calcRowDims ex_this ex_g [ex_tree] 0) ! 0 = Some [ex_A, ex_B] \<and>
   aget NaN (rowMinX (calcRowDims ex_this ex_g [ex_tree] 0)) 0 = Num 40 \<and>
   aget NaN (rowMaxX (calcRowDims ex_this ex_g [ex_tree] 0)) 0 = Num 160 \<and>
   aget NaN (rowRadi (calcRowDims ex_this ex_g [ex_tree] 0)) 0 = Num 50"
proof -
  have a: "row ex_this = []" "centerX ex_this = Num 100"
    by (simp_all add: ex_this_def ex_prepare fresh_def)
  have b: "0 < length (row (calcRowDims ex_this ex_g [ex_tree] 0))"
    "row (calcRowDims ex_this ex_g [ex_tree] 0) ! 0 = Some [ex_A, ex_B]" "[ex_A, ex_B] \<noteq> []"
    by (simp_all add: ex_calc ex_out_def)
  have c: "\<forall>c \<in> set (cells [ex_A, ex_B]). finite_num (x (geometry ex_g c)) \<and>
      finite_num (width (geometry ex_g c))"
    by (simp add: ex_A_def ex_B_def ex_g_def ex_prepare)
  have d: "cells [ex_A, ex_B] = [1, 2]" "mxCompactTreeLayout.root ex_this = 0"
    by (simp_all add: ex_A_def ex_B_def ex_this_def ex_prepare fresh_def)
  show ?thesis
    using calcRowDims_row_extent [OF a b c] a b(2)
    by (simp add: d ex_g_def ex_prepare ex_x_def ex_y_def)
qed


section \<open>The configuration, the edges and the sizes\<close>


definition same_topology :: "mxGraph \<Rightarrow> mxGraph \<Rightarrow> bool" where
  "same_topology g g' \<longleftrightarrow>
     edges g = edges g' \<and>
     (\<forall>c. width (geometry g c) = width (geometry g' c) \<and>
          height (geometry g c) = height (geometry g' c))"



lemma same_topology_refl [simp]: "same_topology g g"
  by (simp add: same_topology_def)




section \<open>The separation of siblings in the reconciliation\<close>

text \<open>
  Two angles that are reals, the second at least \<open>\<pi>/10\<close> above the first; and a list of
  references whose adjacent angles are so, in the order of the list.
\<close>

definition apart :: "num \<Rightarrow> num \<Rightarrow> bool" where
  "apart u w \<longleftrightarrow> finite_num u \<and> finite_num w \<and> u + Math_PI / Num 10 \<le> w"

fun sep :: "(nat \<Rightarrow> num) \<Rightarrow> nat list \<Rightarrow> bool" where
  "sep th (a # b # rs) = (apart (th a) (th b) \<and> sep th (b # rs))"
| "sep th rs = True"

text \<open>
  The average of the angles of the children of a node: the local variable \<^verbatim>\<open>averTheta\<close> of
  the reconciliation.
\<close>

definition averTheta :: "(nat \<Rightarrow> num) \<Rightarrow> node \<Rightarrow> num" where
  "averTheta th child =
     (case sum_theta th child (Num 0, 0) of
        (totalTheta, counter) \<Rightarrow> totalTheta / Num (real counter))"

lemma sep_nth:
  "sep th rs \<longleftrightarrow>
     (\<forall>k. Suc k < length rs \<longrightarrow> apart (th (rs ! k)) (th (rs ! Suc k)))"
proof (induction th rs rule: sep.induct)
  case (1 th a b rs)
  show ?case
  proof
    assume s: "sep th (a # b # rs)"
    show "\<forall>k. Suc k < length (a # b # rs) \<longrightarrow>
        apart (th ((a # b # rs) ! k)) (th ((a # b # rs) ! Suc k))"
    proof (intro allI impI)
      fix k
      assume "Suc k < length (a # b # rs)"
      then show "apart (th ((a # b # rs) ! k)) (th ((a # b # rs) ! Suc k))"
        using s 1 by (cases k) auto
    qed
  next
    assume a: "\<forall>k. Suc k < length (a # b # rs) \<longrightarrow>
        apart (th ((a # b # rs) ! k)) (th ((a # b # rs) ! Suc k))"
    have "apart (th a) (th b)"
      using a [rule_format, of 0] by simp
    moreover have "\<forall>k. Suc k < length (b # rs) \<longrightarrow>
        apart (th ((b # rs) ! k)) (th ((b # rs) ! Suc k))"
      using a by (metis Suc_less_eq length_Cons nth_Cons_Suc)
    ultimately show "sep th (a # b # rs)"
      using 1 by simp
  qed
qed simp_all

lemma apart_iff:
  "apart u w \<longleftrightarrow> (\<exists>a b. u = Num a \<and> w = Num b \<and> a + pi / 10 \<le> b)"
  by (cases u; cases w) (simp_all add: apart_def Math_PI_def)

lemma sep_update:
  assumes "distinct rs" and "j < length rs" and "sep th rs"
    and "0 < j \<longrightarrow> apart (th (rs ! (j - 1))) v"
    and "Suc j < length rs \<longrightarrow> apart v (th (rs ! Suc j))"
  shows "sep (th(rs ! j := v)) rs"
  unfolding sep_nth
proof (intro allI impI)
  fix k
  assume k: "Suc k < length rs"
  have d: "rs ! a = rs ! b \<longleftrightarrow> a = b" if "a < length rs" "b < length rs" for a b
    using assms(1) that by (simp add: nth_eq_iff_index_eq)
  have o: "apart (th (rs ! k)) (th (rs ! Suc k))"
    using assms(3) k unfolding sep_nth by simp
  consider "k = j" | "Suc k = j" | "k \<noteq> j" "Suc k \<noteq> j" by blast
  then show "apart ((th(rs ! j := v)) (rs ! k)) ((th(rs ! j := v)) (rs ! Suc k))"
  proof cases
    case 1
    then show ?thesis
      using assms(5) k d [of "Suc j" j] by simp
  next
    case 2
    then show ?thesis
      using assms(4) k d [of k j] by auto
  next
    case 3
    then show ?thesis
      using o k assms(2) d [of k j] d [of "Suc k" j] by simp
  qed
qed

lemma sep_cong: "\<forall>r \<in> set rs. th' r = th r \<Longrightarrow> sep th' rs = sep th rs"
  by (induction th rs rule: sep.induct) simp_all

lemma refs_nth:
  "Null \<notin> set ns \<Longrightarrow> j < length ns \<Longrightarrow> ns ! j = Node r c child nx \<Longrightarrow> refs ns ! j = r"
proof (induction ns arbitrary: j rule: refs.induct)
  case 1
  then show ?case by simp
next
  case (2 ns)
  then show ?case by simp
next
  case (3 r' c' child' nx' ns)
  then show ?case by (cases j) auto
qed

lemma refs_length: "Null \<notin> set ns \<Longrightarrow> length (refs ns) = length ns"
  by (induction ns rule: refs.induct) simp_all

text \<open>The two clamps, for a node and a neighbour whose angles are apart.\<close>

lemma clamp_up:
  assumes "Num a < avg" and "a + pi / 10 \<le> c"
  shows "\<exists>v. Math_min avg (Num c - Math_PI / Num 10) = Num v \<and> a \<le> v \<and> v + pi / 10 \<le> c"
  using assms by (cases avg) (auto simp: Math_PI_def)

lemma clamp_down:
  assumes "avg < Num a" and "d + pi / 10 \<le> a"
  shows "\<exists>v. Math_max avg (Num d + Math_PI / Num 10) = Num v \<and> v \<le> a \<and> d + pi / 10 \<le> v"
  using assms by (cases avg) (auto simp: Math_PI_def)

lemma reconcile_node_cases:
  assumes "reconcile_node nodes j th = Inr th'" and "nodes ! j = Node r c child nx"
  obtains (same) "th' = th"
  | (up) r' c' child' nx' where "th r < averTheta th child" and "j < length nodes - 1"
      and "nodes ! (j + 1) = Node r' c' child' nx'"
      and "th' = th(r := Math_min (averTheta th child) (th r' - Math_PI / Num 10))"
  | (down) r' c' child' nx' where "\<not> (th r < averTheta th child \<and> j < length nodes - 1)"
      and "averTheta th child < th r" and "0 < j"
      and "nodes ! (j - 1) = Node r' c' child' nx'"
      and "th' = th(r := Math_max (averTheta th child) (th r' + Math_PI / Num 10))"
proof -
  obtain t k where s: "sum_theta th child (Num 0, 0) = (t, k)"
    by (cases "sum_theta th child (Num 0, 0)")
  let ?avg = "t / Num (real k)"
  have av: "averTheta th child = ?avg"
    by (simp add: averTheta_def s)
  show ?thesis
  proof (cases "0 < k \<and> th r < ?avg \<and> j < length nodes - 1")
    case True
    then obtain r' c' child' nx' where n: "nodes ! (j + 1) = Node r' c' child' nx'"
      using assms s by (cases "nodes ! (j + 1)") (auto simp: reconcile_node_def theta_of_def Let_def)
    have "th' = th(r := Math_min ?avg (th r' - Math_PI / Num 10))"
      using assms s True n by (auto simp: reconcile_node_def theta_of_def Let_def)
    then show ?thesis
      using up [of r' c' child' nx'] True n av by simp
  next
    case u: False
    show ?thesis
    proof (cases "0 < k \<and> ?avg < th r \<and> 0 < j")
      case True
      then obtain r' c' child' nx' where n: "nodes ! (j - 1) = Node r' c' child' nx'"
        using assms s u
        by (cases "nodes ! (j - 1)") (auto simp: reconcile_node_def theta_of_def Let_def)
      have "th' = th(r := Math_max ?avg (th r' + Math_PI / Num 10))"
        using assms s u True n by (auto simp: reconcile_node_def theta_of_def Let_def)
      then show ?thesis
        using down [of r' c' child' nx'] True u n av by simp
    next
      case False
      then have "th' = th"
        using assms s u by (auto simp: reconcile_node_def Let_def split: if_splits)
      then show ?thesis
        using same by simp
    qed
  qed
qed

lemma reconcile_node_sep:
  assumes "reconcile_node nodes j th = Inr th'" and "j < length nodes" and "Null \<notin> set nodes"
    and "distinct (refs nodes)" and "sep th (refs nodes)"
  shows "sep th' (refs nodes)"
proof -
  obtain r c child nx where n: "nodes ! j = Node r c child nx"
    using assms(2,3) by (metis node.exhaust nth_mem)
  have l: "length (refs nodes) = length nodes"
    using assms(3) by (rule refs_length)
  have rj: "refs nodes ! j = r"
    using refs_nth [OF assms(3,2) n] .
  have pair: "apart (th (refs nodes ! k)) (th (refs nodes ! Suc k))"
    if "Suc k < length nodes" for k
    using assms(5) that l unfolding sep_nth by simp
  from assms(1) n show ?thesis
  proof (cases rule: reconcile_node_cases)
    case same
    then show ?thesis using assms(5) by simp
  next
    case (up r' c' child' nx')
    have j1: "Suc j < length nodes"
      using up(2) by simp
    have r': "refs nodes ! Suc j = r'"
      using refs_nth [OF assms(3) j1] up(3) by simp
    obtain a c'' where a: "th r = Num a" and c: "th r' = Num c''" "a + pi / 10 \<le> c''"
      using pair [OF j1] rj r' unfolding apart_iff by auto
    let ?v = "Math_min (averTheta th child) (th r' - Math_PI / Num 10)"
    obtain v where v: "?v = Num v" "a \<le> v" "v + pi / 10 \<le> c''"
      using clamp_up [of a "averTheta th child" c''] up(1) a c by auto
    have 1: "0 < j \<longrightarrow> apart (th (refs nodes ! (j - 1))) ?v"
    proof
      assume "0 < j"
      then have "apart (th (refs nodes ! (j - 1))) (th r)"
        using pair [of "j - 1"] assms(2) rj by simp
      then show "apart (th (refs nodes ! (j - 1))) ?v"
        using a v(2) unfolding v(1) apart_iff by auto
    qed
    have 2: "Suc j < length (refs nodes) \<longrightarrow> apart ?v (th (refs nodes ! Suc j))"
      using c v(3) unfolding v(1) r' apart_iff by auto
    show ?thesis
      using sep_update [OF assms(4) _ assms(5) 1 2] assms(2) l rj up(4) by simp
  next
    case (down r' c' child' nx')
    have j1: "j - 1 < length nodes" "Suc (j - 1) = j"
      using down(3) assms(2) by simp_all
    have r': "refs nodes ! (j - 1) = r'"
      using refs_nth [OF assms(3) j1(1)] down(4) by simp
    obtain a d where a: "th r = Num a" and d: "th r' = Num d" "d + pi / 10 \<le> a"
      using pair [of "j - 1"] j1 assms(2) rj r' unfolding apart_iff by auto
    let ?v = "Math_max (averTheta th child) (th r' + Math_PI / Num 10)"
    obtain v where v: "?v = Num v" "v \<le> a" "d + pi / 10 \<le> v"
      using clamp_down [of "averTheta th child" a d] down(2) a d by auto
    have 1: "0 < j \<longrightarrow> apart (th (refs nodes ! (j - 1))) ?v"
      using d v(3) unfolding v(1) r' apart_iff by auto
    have 2: "Suc j < length (refs nodes) \<longrightarrow> apart ?v (th (refs nodes ! Suc j))"
    proof
      assume "Suc j < length (refs nodes)"
      then have "apart (th r) (th (refs nodes ! Suc j))"
        using pair [of j] l rj by simp
      then show "apart ?v (th (refs nodes ! Suc j))"
        using a v(2) unfolding v(1) apart_iff by auto
    qed
    show ?thesis
      using sep_update [OF assms(4) _ assms(5) 1 2] assms(2) l rj down(5) by simp
  qed
qed

lemma foldE_invariant:
  assumes "foldE f as s = Inr s'" and "P s"
    and "\<And>a t t'. a \<in> set as \<Longrightarrow> P t \<Longrightarrow> f a t = Inr t' \<Longrightarrow> P t'"
  shows "P s'"
  using assms
proof (induction as arbitrary: s)
  case Nil
  show ?case
    using Nil.prems(1,2) by simp
next
  case (Cons a as)
  from Cons.prems(1) obtain t where t: "f a s = Inr t" and rest: "foldE f as t = Inr s'"
    by (auto split: sum.splits)
  have pt: "P t"
    by (rule Cons.prems(3) [of a s t]) (simp_all add: Cons.prems(2) t)
  show ?case
  proof (rule Cons.IH [OF rest pt])
    fix b u u'
    assume "b \<in> set as" "P u" "f b u = Inr u'"
    then show "P u'"
      using Cons.prems(3) [of b u u'] by simp
  qed
qed

lemma foldE_steps:
  "foldE f as s = Inr s' \<Longrightarrow> a \<in> set as \<Longrightarrow> \<exists>t t'. f a t = Inr t'"
proof (induction as arbitrary: s)
  case Nil
  then show ?case by simp
next
  case (Cons b bs)
  from Cons.prems(1) obtain t where t: "f b s = Inr t" and rest: "foldE f bs t = Inr s'"
    by (auto split: sum.splits)
  show ?case
  proof (cases "a = b")
    case True
    then show ?thesis using t by blast
  next
    case False
    then have "a \<in> set bs" using Cons.prems(2) by simp
    then show ?thesis by (rule Cons.IH [OF rest])
  qed
qed

lemma reconcile_row_no_Null:
  assumes "reconcile_row nodes th = Inr th'"
  shows "Null \<notin> set nodes"
proof
  assume "Null \<in> set nodes"
  then obtain j where j: "j < length nodes" "nodes ! j = Null"
    by (metis in_set_conv_nth)
  then obtain t t' where "reconcile_node nodes j t = Inr t'"
    using foldE_steps [OF assms [unfolded reconcile_row_def], of j] by auto
  then show False
    using j(2) by (simp add: reconcile_node_def)
qed

lemma reconcile_row_sep:
  assumes "reconcile_row nodes th = Inr th'" and "distinct (refs nodes)"
    and "sep th (refs nodes)"
  shows "sep th' (refs nodes)"
proof (rule foldE_invariant [OF assms(1) [unfolded reconcile_row_def], of "\<lambda>t. sep t (refs nodes)"])
  show "sep th (refs nodes)"
    by (rule assms(3))
next
  fix j t t'
  assume "j \<in> set [0..<length nodes]" and "sep t (refs nodes)"
    and "reconcile_node nodes j t = Inr t'"
  then show "sep t' (refs nodes)"
    using reconcile_node_sep [of nodes j t t', OF _ _ reconcile_row_no_Null [OF assms(1)] assms(2)]
    by simp
qed

lemma row_refs_disjoint:
  assumes "distinct (row_refs rows)" and "i < length rows" and "j < length rows" and "i \<noteq> j"
    and "rows ! i = Some ns" and "rows ! j = Some ms" and "r \<in> set (refs ns)"
  shows "r \<notin> set (refs ms)"
proof -
  let ?f = "\<lambda>e. case e of None \<Rightarrow> [] | Some ns \<Rightarrow> refs ns"
  have "set (map ?f rows ! i) \<inter> set (map ?f rows ! j) = {}"
    using distinct_concat_nth [of "map ?f rows" i j] distinct_concat_nth [of "map ?f rows" j i]
      assms(1-4) unfolding row_refs_def
    by (cases "i < j") (auto simp: Int_commute)
  then show ?thesis
    using assms(2,3,5,6,7) by auto
qed

lemma distinct_concat_row: "distinct (concat xss) \<Longrightarrow> i < length xss \<Longrightarrow> distinct (xss ! i)"
  by (simp add: distinct_concat_iff)

lemma row_refs_distinct_row:
  assumes "distinct (row_refs rows)" and "i < length rows" and "rows ! i = Some ns"
  shows "distinct (refs ns)"
proof -
  let ?f = "\<lambda>e. case e of None \<Rightarrow> [] | Some ns \<Rightarrow> refs ns"
  have d: "distinct (concat (map ?f rows))"
    using assms(1) by (simp add: row_refs_def)
  have "distinct (map ?f rows ! i)"
    using distinct_concat_row [OF d, of i] assms(2) by simp
  then show ?thesis
    using assms(2,3) by simp
qed

lemma reconcile_sep:
  assumes "reconcile rows th = Inr th'" and d: "distinct (row_refs rows)"
    and i: "i < length rows" and r: "rows ! i = Some ns" and s: "sep th (refs ns)"
  shows "sep th' (refs ns)"
proof (rule foldE_invariant [OF assms(1) [unfolded reconcile_def], of "\<lambda>t. sep t (refs ns)"])
  show "sep th (refs ns)"
    by (rule s)
next
  fix k t t'
  assume k: "k \<in> set (rev [0..<length rows - 1])"
    and h: "sep t (refs ns)"
    and c: "(case rows ! k of None \<Rightarrow> Inl TypeError | Some nodes \<Rightarrow> reconcile_row nodes t) = Inr t'"
  from c obtain ms where ms: "rows ! k = Some ms" and rr: "reconcile_row ms t = Inr t'"
    by (auto split: option.splits)
  have kl: "k < length rows"
    using k by auto
  show "sep t' (refs ns)"
  proof (cases "k = i")
    case True
    then have "ms = ns" using ms r by simp
    then show ?thesis
      using reconcile_row_sep [OF rr] row_refs_distinct_row [OF d i r] h by simp
  next
    case False
    have "\<forall>q \<in> set (refs ns). t' q = t q"
    proof
      fix q
      assume q: "q \<in> set (refs ns)"
      show "t' q = t q"
      proof (rule ccontr)
        assume "t' q \<noteq> t q"
        then obtain j c child nx where jm: "j < length ms" "ms ! j = Node q c child nx"
          using reconcile_row_frame [OF rr] by blast
        have "Node q c child nx \<in> set ms"
          using jm nth_mem [of j ms] by simp
        then have "q \<in> set (refs ms)"
          by (rule refs_mem)
        then show False
          using row_refs_disjoint [OF d i kl _ r ms q] False by simp
      qed
    qed
    then show ?thesis
      using sep_cong [of "refs ns" t' t] h by simp
  qed
qed

lemma sep_order:
  assumes "sep th rs" and "Suc k < length rs"
  shows "th (rs ! k) < th (rs ! Suc k)"
proof -
  have "apart (th (rs ! k)) (th (rs ! Suc k))"
    using assms unfolding sep_nth by simp
  then obtain a b where ab: "th (rs ! k) = Num a" "th (rs ! Suc k) = Num b" "a + pi / 10 \<le> b"
    unfolding apart_iff by blast
  have "a < b"
    using ab(3) pi_gt_zero by linarith
  then show ?thesis
    using ab by simp
qed

text \<open>
  Claim C3, amended. A clamp leaves the clamped node at least \<open>\<pi>/10\<close> away from the sibling
  it is clamped against. When the reconciliation of the node at index \<open>j\<close> changes its angle
  to a number, then either the average of its children is above its angle and it is not the
  last node of its row (the clamp toward the next sibling): the new angle is the minimum of
  the average and of the angle of the next sibling minus \<open>\<pi>/10\<close>, and the angle of the next
  sibling exceeds the new angle by at least \<open>\<pi>/10\<close>; or that is not so, the average is below
  its angle and it is not the first node of its row (the clamp toward the previous sibling):
  the new angle is the maximum of the average and of the angle of the previous sibling plus
  \<open>\<pi>/10\<close>, and it exceeds the angle of the previous sibling by at least \<open>\<pi>/10\<close>. The separation
  from the sibling on the other side is kept only if it was there before: in a row of
  distinct nodes whose adjacent angles are reals at least \<open>\<pi>/10\<close> apart before the
  reconciliation, they are so after it, and the angles of the row are still strictly
  increasing.
\<close>

theorem reconcile_keeps_separation:
  "(reconcile_node nodes j th = Inr th' \<and> nodes ! j = Node r c child nx \<and>
      th' r \<noteq> th r \<and> th' r \<noteq> NaN \<longrightarrow>
      (th r < averTheta th child \<and> j < length nodes - 1 \<and>
       (\<exists>r' c' child' nx'. nodes ! (j + 1) = Node r' c' child' nx' \<and>
          th' r = Math_min (averTheta th child) (th r' - Math_PI / Num 10) \<and>
          th' r + Math_PI / Num 10 \<le> th r')) \<or>
      (\<not> (th r < averTheta th child \<and> j < length nodes - 1) \<and>
       averTheta th child < th r \<and> 0 < j \<and>
       (\<exists>r' c' child' nx'. nodes ! (j - 1) = Node r' c' child' nx' \<and>
          th' r = Math_max (averTheta th child) (th r' + Math_PI / Num 10) \<and>
          th r' + Math_PI / Num 10 \<le> th' r))) \<and>
   (reconcile rows th0 = Inr th1 \<and> distinct (row_refs rows) \<and> i < length rows \<and>
      rows ! i = Some ns \<and> sep th0 (refs ns) \<longrightarrow>
      sep th1 (refs ns) \<and>
      (\<forall>k. Suc k < length (refs ns) \<longrightarrow> th1 (refs ns ! k) < th1 (refs ns ! Suc k)))"
proof (intro conjI impI)
  assume a: "reconcile_node nodes j th = Inr th' \<and> nodes ! j = Node r c child nx \<and>
      th' r \<noteq> th r \<and> th' r \<noteq> NaN"
  then have 1: "reconcile_node nodes j th = Inr th'" and 2: "nodes ! j = Node r c child nx"
    and 3: "th' r \<noteq> th r" and 4: "th' r \<noteq> NaN"
    by simp_all
  from 1 2 show "(th r < averTheta th child \<and> j < length nodes - 1 \<and>
       (\<exists>r' c' child' nx'. nodes ! (j + 1) = Node r' c' child' nx' \<and>
          th' r = Math_min (averTheta th child) (th r' - Math_PI / Num 10) \<and>
          th' r + Math_PI / Num 10 \<le> th r')) \<or>
      (\<not> (th r < averTheta th child \<and> j < length nodes - 1) \<and>
       averTheta th child < th r \<and> 0 < j \<and>
       (\<exists>r' c' child' nx'. nodes ! (j - 1) = Node r' c' child' nx' \<and>
          th' r = Math_max (averTheta th child) (th r' + Math_PI / Num 10) \<and>
          th r' + Math_PI / Num 10 \<le> th' r))"
  proof (cases rule: reconcile_node_cases)
    case same
    then show ?thesis using 3 by simp
  next
    case (up r' c' child' nx')
    have v: "th' r = Math_min (averTheta th child) (th r' - Math_PI / Num 10)"
      by (simp add: up(4))
    have "th' r + Math_PI / Num 10 \<le> th r'"
      using 4 unfolding v
      by (cases "averTheta th child"; cases "th r'") (simp_all add: Math_PI_def)
    then show ?thesis
      using up(1,2,3) v by blast
  next
    case (down r' c' child' nx')
    have v: "th' r = Math_max (averTheta th child) (th r' + Math_PI / Num 10)"
      by (simp add: down(5))
    have "th r' + Math_PI / Num 10 \<le> th' r"
      using 4 unfolding v
      by (cases "averTheta th child"; cases "th r'") (simp_all add: Math_PI_def)
    then show ?thesis
      using down(1,2,3,4) v by blast
  qed
next
  assume b: "reconcile rows th0 = Inr th1 \<and> distinct (row_refs rows) \<and> i < length rows \<and>
      rows ! i = Some ns \<and> sep th0 (refs ns)"
  then show "sep th1 (refs ns)"
    using reconcile_sep [of rows th0 th1 i ns] by simp
  then show "\<forall>k. Suc k < length (refs ns) \<longrightarrow> th1 (refs ns ! k) < th1 (refs ns ! Suc k)"
    by (intro allI impI) (rule sep_order)
qed

theorem reconcile_keeps_separation_witness:
  "reconcile_node [ex_A, ex_B] 1 ex_th = Inr (ex_th(2 := Num 4)) \<and>
   averTheta ex_th ex_C < ex_th 2 \<and>
   ex_th 1 + Math_PI / Num 10 \<le> (ex_th(2 := Num 4)) 2 \<and>
   reconcile ex_rows ex_th = Inr (ex_th(2 := Num 4)) \<and> distinct (row_refs ex_rows) \<and>
   sep ex_th (refs [ex_A, ex_B]) \<and> sep (ex_th(2 := Num 4)) (refs [ex_A, ex_B]) \<and>
   (ex_th(2 := Num 4)) 1 < (ex_th(2 := Num 4)) 2"
proof -
  have m: "max 4 (1 + pi / 10) = (4::real)"
    using pi_less_4 by simp
  have n: "reconcile_node [ex_A, ex_B] 1 ex_th = Inr (ex_th(2 := Num 4))"
    using m by (simp add: reconcile_node_def theta_of_def ex_A_def ex_B_def ex_C_def ex_th_def
        Math_PI_def Let_def)
  have b: "[ex_A, ex_B] ! 1 = Node 2 2 ex_C Null"
    by (simp add: ex_B_def)
  have c: "(ex_th(2 := Num 4)) 2 \<noteq> ex_th 2" "(ex_th(2 := Num 4)) 2 \<noteq> NaN"
    by (simp_all add: ex_th_def)
  have d: "distinct (row_refs ex_rows)"
    by (simp add: row_refs_def ex_rows_def ex_A_def ex_B_def ex_C_def)
  have r: "0 < length ex_rows" "ex_rows ! 0 = Some [ex_A, ex_B]"
    by (simp_all add: ex_rows_def)
  have s: "sep ex_th (refs [ex_A, ex_B])"
    using pi_less_4 by (simp add: ex_A_def ex_B_def ex_th_def apart_def Math_PI_def)
  note t = reconcile_keeps_separation [where nodes = "[ex_A, ex_B]" and j = 1 and th = ex_th
      and th' = "ex_th(2 := Num 4)" and r = 2 and c = 2 and child = ex_C and nx = Null
      and rows = ex_rows and ?th0.0 = ex_th and ?th1.0 = "ex_th(2 := Num 4)" and i = 0
      and ns = "[ex_A, ex_B]"]
  have 1: "averTheta ex_th ex_C < ex_th 2 \<and>
      ex_th 1 + Math_PI / Num 10 \<le> (ex_th(2 := Num 4)) 2"
    using t n b c by (auto simp: ex_A_def)
  have 2: "sep (ex_th(2 := Num 4)) (refs [ex_A, ex_B])"
    and 3: "\<forall>k. Suc k < length (refs [ex_A, ex_B]) \<longrightarrow>
      (ex_th(2 := Num 4)) (refs [ex_A, ex_B] ! k) < (ex_th(2 := Num 4)) (refs [ex_A, ex_B] ! Suc k)"
    using t ex_reconcile d r s by blast+
  have "(ex_th(2 := Num 4)) 1 < (ex_th(2 := Num 4)) 2"
    using 3 [rule_format, of 0] by (simp add: ex_A_def ex_B_def)
  then show ?thesis
    using n 1 ex_reconcile d s 2 by blast
qed

subsection \<open>A row with a wide vertex\<close>

text \<open>
  The root has the children P0, P1, P2 (20 wide, at x = 0, 30, 60) and P3 (1910 wide, at
  x = 90); P1 has the child K. The root is centered above its children, at x = 990, and
  the node distance is 10. The polar angles of P0, P1, P2 are \<open>\<pi>/100\<close>, \<open>4\<pi>/100\<close>, \<open>7\<pi>/100\<close>, and
  the angle of K is \<open>103\<pi>/199\<close>.
\<close>

definition wide_K :: node where "wide_K = Node 5 5 Null Null"
definition wide_P3 :: node where "wide_P3 = Node 4 4 Null Null"
definition wide_P2 :: node where "wide_P2 = Node 3 3 Null wide_P3"
definition wide_P1 :: node where "wide_P1 = Node 2 2 wide_K wide_P2"
definition wide_P0 :: node where "wide_P0 = Node 1 1 Null wide_P1"
definition wide_tree :: node where "wide_tree = Node 0 0 wide_P0 Null"

definition wide_x :: "nat \<Rightarrow> real" where
  "wide_x c = (if c = 0 then 990 else if c = 1 then 0 else if c = 2 then 30
             else if c = 3 then 60 else if c = 4 then 90 else 30)"

definition wide_y :: "nat \<Rightarrow> real" where
  "wide_y c = (if c = 0 then 0 else if c = 5 then 100 else 50)"

definition wide_width :: "nat \<Rightarrow> real" where
  "wide_width c = (if c = 4 then 1910 else 20)"

definition wide_super :: compact_layout where
  "wide_super s g th p r =
     (s\<lparr>root := 0, node := wide_tree\<rparr>,
      g\<lparr>geometry := \<lambda>c. (geometry g c)\<lparr>x := Num (wide_x c), y := Num (wide_y c)\<rparr>\<rparr>,
      \<lambda>k. NaN)"

definition wide_m :: machine where
  "wide_m = \<lparr>layout = fresh,
     graph = \<lparr>edges = [(0, 1), (0, 2), (0, 3), (0, 4), (2, 5)],
       geometry = \<lambda>c. \<lparr>x = Num 0, y = Num 0, width = Num (wide_width c), height = Num 20\<rparr>\<rparr>,
     theta = \<lambda>k. NaN\<rparr>"

lemmas wide_defs = wide_m_def fresh_def wide_super_def wide_tree_def wide_P0_def wide_P1_def wide_P2_def
  wide_P3_def wide_K_def wide_x_def wide_y_def wide_width_def

definition wide_polar :: "nat \<Rightarrow> num" where
  "wide_polar = (\<lambda>k. NaN)(1 := Num (pi / 100), 2 := Num (pi / 25), 3 := Num (7 * pi / 100),
     4 := Num (209 * pi / 200), 5 := Num (103 * pi / 199))"

definition wide_out :: machine where
  "wide_out =
     \<lparr>layout = fresh\<lparr>parent := 0, useBoundingBox := False, edgeRouting := False,
        node := wide_tree,
        rowMinX := [Num 0, Num 30], rowMaxX := [Num 2000, Num 1000],
        rowMinCenX := [Num 10, Num 40], rowMaxCenX := [Num 1045, Num 1000],
        rowRadi := [Num 50, Num 100],
        row := [Some [wide_P0, wide_P1, wide_P2, wide_P3], Some [wide_K]],
        centerX := Num 1000, centerY := Num 10\<rparr>,
      graph = \<lparr>edges = [(0, 1), (0, 2), (0, 3), (0, 4), (2, 5)],
        geometry = (\<lambda>c. \<lparr>x = Num (wide_x c), y = Num (wide_y c), width = Num (wide_width c),
                          height = Num 20\<rparr>)
          (1 := \<lparr>x = Num (990 + 50 * cos (pi / 100)), y = Num (50 * sin (pi / 100)),
                 width = Num 20, height = Num 20\<rparr>,
           2 := \<lparr>x = Num (990 + 50 * cos (- (3 * pi / 100))),
                 y = Num (50 * sin (- (3 * pi / 100))), width = Num 20, height = Num 20\<rparr>,
           3 := \<lparr>x = Num (990 + 50 * cos (7 * pi / 100)), y = Num (50 * sin (7 * pi / 100)),
                 width = Num 20, height = Num 20\<rparr>,
           4 := \<lparr>x = Num (45 + 50 * cos (209 * pi / 200)), y = Num (50 * sin (209 * pi / 200)),
                 width = Num 1910, height = Num 20\<rparr>,
           5 := \<lparr>x = Num (990 + 100 * cos (103 * pi / 199)),
                 y = Num (100 * sin (103 * pi / 199)), width = Num 20, height = Num 20\<rparr>)\<rparr>,
      theta = (\<lambda>k. NaN)(1 := Num (pi / 100), 3 := Num (7 * pi / 100),
        4 := Num (209 * pi / 200), 5 := Num (103 * pi / 199), 2 := Num (- (3 * pi / 100)))\<rparr>"

lemma wide_clamp: "min (103 * pi / 199) (7 * pi / 100 - pi / 10) = - (3 * pi / 100)"
proof -
  have "7 * pi / 100 - pi / 10 = - (3 * pi / 100)"
    by simp
  moreover have "- (3 * pi / 100) \<le> 103 * pi / 199"
    using pi_gt_zero by linarith
  ultimately show ?thesis
    by simp
qed

lemma wide_execute: "execute wide_super wide_m 0 None = Inr wide_out"
  using wide_clamp by (simp add: wide_out_def eval_defs wide_defs cong: let_weak_cong)

lemma wide_prepare:
  "prepare wide_super wide_m 0 None =
     (fresh\<lparr>parent := 0, useBoundingBox := False, edgeRouting := False, node := wide_tree,
        centerX := Num 1000, centerY := Num 10\<rparr>,
      \<lparr>edges = [(0, 1), (0, 2), (0, 3), (0, 4), (2, 5)],
       geometry = \<lambda>c. \<lparr>x = Num (wide_x c), y = Num (wide_y c), width = Num (wide_width c),
                         height = Num 20\<rparr>\<rparr>,
      \<lambda>k. NaN)"
  by (simp add: prepare_def super_part_def set_super_def getVertexBounds_def
      mxCompactTreeLayout.truncate_def wide_m_def fresh_def wide_super_def wide_x_def wide_y_def
      wide_width_def Let_def)

lemma wide_gradients: "gradients (layout wide_out) = (Num (99 / 5), Num (99 / 5))"
  by (simp add: gradients_def wide_out_def fresh_def Let_def)

lemma wide_polar_run:
  "polar (layout wide_out) (fst (snd (prepare wide_super wide_m 0 None)))
     (fst (gradients (layout wide_out))) (snd (gradients (layout wide_out)))
     (snd (snd (prepare wide_super wide_m 0 None))) = Inr wide_polar"
  unfolding wide_prepare wide_gradients
  by (simp add: polar_def polar_row_def polar_node_def getVertexBounds_def wide_out_def
      wide_polar_def fresh_def wide_P0_def wide_P1_def wide_P2_def wide_P3_def wide_K_def
      wide_x_def wide_y_def wide_width_def Math_PI_def Let_def cong: let_weak_cong)

lemma wide_reconcile: "reconcile (row (layout wide_out)) wide_polar = Inr (theta wide_out)"
  using wide_clamp
  by (simp add: reconcile_def reconcile_row_def reconcile_node_def theta_of_def wide_out_def
      wide_polar_def wide_P0_def wide_P1_def wide_P2_def wide_P3_def wide_K_def Math_PI_def
      Let_def cong: let_weak_cong)

text \<open>
  Claim C3 as stated fails on this run of execute. The children's average of P1 is larger
  than its angle, so P1 is clamped to the angle of P2 minus \<open>\<pi>/10\<close>, which is \<open>-3\<pi>/100\<close>:
  below the angle \<open>\<pi>/100\<close> of its previous sibling P0. A clamp was applied to P1, the
  difference of the angles of P1 and P0 is negative, and the order of P0 and P1 is
  inverted.
\<close>

theorem execute_reconcile_inverts_siblings:
  "execute wide_super wide_m 0 None = Inr wide_out \<and>
   row (layout wide_out) = [Some [wide_P0, wide_P1, wide_P2, wide_P3], Some [wide_K]] \<and>
   polar (layout wide_out) (fst (snd (prepare wide_super wide_m 0 None)))
     (fst (gradients (layout wide_out))) (snd (gradients (layout wide_out)))
     (snd (snd (prepare wide_super wide_m 0 None))) = Inr wide_polar \<and>
   reconcile (row (layout wide_out)) wide_polar = Inr (theta wide_out) \<and>
   wide_polar 1 = Num (pi / 100) \<and> wide_polar 2 = Num (pi / 25) \<and>
   theta wide_out 1 = Num (pi / 100) \<and> theta wide_out 2 = Num (- (3 * pi / 100)) \<and>
   theta wide_out 2 < theta wide_out 1 \<and>
   \<not> theta wide_out 1 + Math_PI / Num 10 \<le> theta wide_out 2"
proof -
  have "theta wide_out 1 = Num (pi / 100)" "theta wide_out 2 = Num (- (3 * pi / 100))"
    "wide_polar 1 = Num (pi / 100)" "wide_polar 2 = Num (pi / 25)"
    "row (layout wide_out) = [Some [wide_P0, wide_P1, wide_P2, wide_P3], Some [wide_K]]"
    by (simp_all add: wide_out_def wide_polar_def)
  moreover have "- (3 * pi / 100) < pi / 100" "\<not> pi / 100 + pi / 10 \<le> - (3 * pi / 100)"
    using pi_gt_zero by linarith+
  ultimately show ?thesis
    using wide_execute wide_polar_run wide_reconcile by (simp add: Math_PI_def)
qed

section \<open>The polar angles\<close>

text \<open>
  The virtual limits of a row and the fractional position of a vertex between them: the
  local variables \<^verbatim>\<open>xLeftLimit\<close>, \<^verbatim>\<open>xRightLimit\<close> and \<^verbatim>\<open>xProportion\<close> of the second loop of
  execute.
\<close>

definition xLeftLimit :: "mxRadialTreeLayout \<Rightarrow> num \<Rightarrow> nat \<Rightarrow> num" where
  "xLeftLimit this maxLeftGrad i =
     centerX this - nodeDistance this - maxLeftGrad * aget NaN (rowRadi this) i"

definition xRightLimit :: "mxRadialTreeLayout \<Rightarrow> num \<Rightarrow> nat \<Rightarrow> num" where
  "xRightLimit this maxRightGrad i =
     centerX this + nodeDistance this + maxRightGrad * aget NaN (rowRadi this) i"

definition xProportion :: "mxGraph \<Rightarrow> num \<Rightarrow> num \<Rightarrow> nat \<Rightarrow> num" where
  "xProportion g xl xr c =
     (x (getVertexBounds g c) + width (getVertexBounds g c) / Num 2 - xl) / (xr - xl)"

lemma polar_row_limits:
  "polar_row this g maxLeftGrad maxRightGrad i th =
     (case aget None (row this) i of
        None \<Rightarrow> Inl TypeError
      | Some nodes \<Rightarrow>
          foldE (polar_node g (xLeftLimit this maxLeftGrad i)
                   (xRightLimit this maxRightGrad i - xLeftLimit this maxLeftGrad i)) nodes th)"
  by (simp add: polar_row_def xLeftLimit_def xRightLimit_def Let_def cong: option.case_cong)

lemma refs_single: "a \<in> set ns \<Longrightarrow> set (refs [a]) \<subseteq> set (refs ns)"
  by (cases a) (auto dest: refs_mem)

lemma refs_append: "refs (ms @ ns) = refs ms @ refs ns"
  by (induction ms rule: refs.induct) simp_all

lemma polar_node_other:
  "polar_node g xl fw n th = Inr th' \<Longrightarrow> r \<notin> set (refs [n]) \<Longrightarrow> th' r = th r"
  by (cases n) (auto simp: polar_node_def Let_def)

lemma polar_node_write:
  "polar_node g xl (xr - xl) (Node r c child nx) th = Inr th' \<Longrightarrow>
     th' r = Num 2 * Math_PI * xProportion g xl xr c"
  by (auto simp: polar_node_def Let_def xProportion_def)

lemma polar_nodes_other:
  assumes "foldE (polar_node g xl fw) ns th = Inr th'" and "r \<notin> set (refs ns)"
  shows "th' r = th r"
proof (rule foldE_unchanged [OF assms(1), of "\<lambda>t. t r"])
  fix a t t'
  assume "a \<in> set ns" and e: "polar_node g xl fw a t = Inr t'"
  then have "r \<notin> set (refs [a])"
    using assms(2) refs_single by blast
  then show "t' r = t r"
    using polar_node_other [OF e] by simp
qed

lemma polar_nodes_write:
  assumes "foldE (polar_node g xl (xr - xl)) ns th = Inr th'" and "distinct (refs ns)"
    and "Node r c child nx \<in> set ns"
  shows "th' r = Num 2 * Math_PI * xProportion g xl xr c"
proof -
  obtain pre post where sp: "ns = pre @ Node r c child nx # post"
    using assms(3) by (meson split_list)
  have nc: "r \<notin> set (refs pre) \<union> set (refs post)"
    using assms(2) by (auto simp: sp refs_append)
  show ?thesis
  proof (rule foldE_write [OF assms(1) [unfolded sp], of "\<lambda>t. t r"
        "\<lambda>v. Num 2 * Math_PI * xProportion g xl xr c"])
    fix b t t'
    assume "b \<in> set pre \<union> set post" and e: "polar_node g xl (xr - xl) b t = Inr t'"
    then have "r \<notin> set (refs [b])"
      using nc refs_single by blast
    then show "t' r = t r"
      using polar_node_other [OF e] by simp
  next
    fix t t'
    assume "polar_node g xl (xr - xl) (Node r c child nx) t = Inr t'"
    then show "t' r = Num 2 * Math_PI * xProportion g xl xr c"
      by (rule polar_node_write)
  qed
qed

lemma polar_write:
  assumes e: "polar this g maxLeftGrad maxRightGrad th = Inr th'"
    and d: "distinct (row_refs (row this))"
    and i: "i < length (row this)" and r: "row this ! i = Some ns"
    and n: "Node r c child nx \<in> set ns"
  shows "th' r = Num 2 * Math_PI *
           xProportion g (xLeftLimit this maxLeftGrad i) (xRightLimit this maxRightGrad i) c"
proof -
  have sp: "[0..<length (row this)] = [0..<i] @ i # [Suc i..<length (row this)]"
    using i by (metis le_add2 le_add_same_cancel2 less_imp_add_positive upt_add_eq_append upt_conv_Cons)
  show ?thesis
  proof (rule foldE_write [OF e [unfolded polar_def sp], of "\<lambda>t. t r"
        "\<lambda>v. Num 2 * Math_PI *
           xProportion g (xLeftLimit this maxLeftGrad i) (xRightLimit this maxRightGrad i) c"])
    fix j t t'
    assume j: "j \<in> set [0..<i] \<union> set [Suc i..<length (row this)]"
      and f: "polar_row this g maxLeftGrad maxRightGrad j t = Inr t'"
    then have jl: "j < length (row this)" and ji: "i \<noteq> j"
      using i by auto
    from f jl obtain ms where ms: "row this ! j = Some ms"
      and fm: "foldE (polar_node g (xLeftLimit this maxLeftGrad j)
                 (xRightLimit this maxRightGrad j - xLeftLimit this maxLeftGrad j)) ms t = Inr t'"
      by (auto simp: polar_row_limits aget_def split: option.splits)
    have "r \<notin> set (refs ms)"
      using row_refs_disjoint [OF d i jl ji r ms] refs_mem [OF n] by simp
    then show "t' r = t r"
      using polar_nodes_other [OF fm] by simp
  next
    fix t t'
    assume "polar_row this g maxLeftGrad maxRightGrad i t = Inr t'"
    then have "foldE (polar_node g (xLeftLimit this maxLeftGrad i)
                 (xRightLimit this maxRightGrad i - xLeftLimit this maxLeftGrad i)) ns t = Inr t'"
      using i r by (simp add: polar_row_limits aget_def)
    then show "t' r = Num 2 * Math_PI *
           xProportion g (xLeftLimit this maxLeftGrad i) (xRightLimit this maxRightGrad i) c"
      using polar_nodes_write row_refs_distinct_row [OF d i r] n by simp
  qed
qed


text \<open>
  The first loop: with finite row dimensions and radii other than zero, the two gradients
  are numbers, not negative, and at least the gradient of every row.
\<close>

lemma gradients_fold:
  assumes "centerX this = Num cx" and "nodeDistance this = Num nd"
    and "\<forall>i \<in> set js. aget NaN (rowMinX this) i = Num (mn i) \<and>
           aget NaN (rowMaxX this) i = Num (mx i) \<and>
           aget NaN (rowRadi this) i = Num (rad i) \<and> rad i \<noteq> 0"
  shows "\<exists>L R.
     fold (\<lambda>i (maxLeftGrad, maxRightGrad).
             let leftGrad = (centerX this - aget NaN (rowMinX this) i - nodeDistance this)
                              / aget NaN (rowRadi this) i;
                 rightGrad = (aget NaN (rowMaxX this) i - centerX this - nodeDistance this)
                               / aget NaN (rowRadi this) i
             in (Math_max maxLeftGrad leftGrad, Math_max maxRightGrad rightGrad))
       js (Num l0, Num r0) = (Num L, Num R) \<and> l0 \<le> L \<and> r0 \<le> R \<and>
     (\<forall>i \<in> set js. (cx - mn i - nd) / rad i \<le> L \<and> (mx i - cx - nd) / rad i \<le> R)"
  using assms(3)
proof (induction js arbitrary: l0 r0)
  case Nil
  show ?case by simp
next
  case (Cons j js)
  let ?l = "max l0 ((cx - mn j - nd) / rad j)"
  let ?r = "max r0 ((mx j - cx - nd) / rad j)"
  have f: "\<forall>i \<in> set js. aget NaN (rowMinX this) i = Num (mn i) \<and>
           aget NaN (rowMaxX this) i = Num (mx i) \<and>
           aget NaN (rowRadi this) i = Num (rad i) \<and> rad i \<noteq> 0"
    using Cons.prems by simp
  have j: "aget NaN (rowMinX this) j = Num (mn j)" "aget NaN (rowMaxX this) j = Num (mx j)"
    "aget NaN (rowRadi this) j = Num (rad j)" "rad j \<noteq> 0"
    using Cons.prems by simp_all
  obtain L R where LR: "fold (\<lambda>i (maxLeftGrad, maxRightGrad).
             let leftGrad = (centerX this - aget NaN (rowMinX this) i - nodeDistance this)
                              / aget NaN (rowRadi this) i;
                 rightGrad = (aget NaN (rowMaxX this) i - centerX this - nodeDistance this)
                               / aget NaN (rowRadi this) i
             in (Math_max maxLeftGrad leftGrad, Math_max maxRightGrad rightGrad))
       js (Num ?l, Num ?r) = (Num L, Num R)" and b: "?l \<le> L" "?r \<le> R"
    and a: "\<forall>i \<in> set js. (cx - mn i - nd) / rad i \<le> L \<and> (mx i - cx - nd) / rad i \<le> R"
    using Cons.IH [OF f, of ?l ?r] by blast
  have "fold (\<lambda>i (maxLeftGrad, maxRightGrad).
             let leftGrad = (centerX this - aget NaN (rowMinX this) i - nodeDistance this)
                              / aget NaN (rowRadi this) i;
                 rightGrad = (aget NaN (rowMaxX this) i - centerX this - nodeDistance this)
                               / aget NaN (rowRadi this) i
             in (Math_max maxLeftGrad leftGrad, Math_max maxRightGrad rightGrad))
       (j # js) (Num l0, Num r0) = (Num L, Num R)"
    using LR j assms(1,2) by (simp add: Let_def)
  moreover have "l0 \<le> L" "r0 \<le> R" "(cx - mn j - nd) / rad j \<le> L"
    "(mx j - cx - nd) / rad j \<le> R"
    using b by simp_all
  ultimately show ?case
    using a by auto
qed

lemma gradients_bounds:
  assumes "centerX this = Num cx" and "nodeDistance this = Num nd"
    and "\<forall>i < length (row this). aget NaN (rowMinX this) i = Num (mn i) \<and>
           aget NaN (rowMaxX this) i = Num (mx i) \<and>
           aget NaN (rowRadi this) i = Num (rad i) \<and> rad i \<noteq> 0"
  shows "\<exists>L R. gradients this = (Num L, Num R) \<and> 0 \<le> L \<and> 0 \<le> R \<and>
     (\<forall>i < length (row this).
        (cx - mn i - nd) / rad i \<le> L \<and> (mx i - cx - nd) / rad i \<le> R)"
proof -
  have "\<forall>i \<in> set [0..<length (row this)]. aget NaN (rowMinX this) i = Num (mn i) \<and>
           aget NaN (rowMaxX this) i = Num (mx i) \<and>
           aget NaN (rowRadi this) i = Num (rad i) \<and> rad i \<noteq> 0"
    using assms(3) by simp
  from gradients_fold [OF assms(1,2) this, of 0 0] show ?thesis
    unfolding gradients_def by (auto simp: Let_def)
qed


lemma calcRowDims_fresh:
  assumes "row this = []"
  shows "row (calcRowDims this g [n0] 0) = map Some (rows_from [n0])"
    and "centerX (calcRowDims this g [n0] 0) = centerX this"
    and "nodeDistance (calcRowDims this g [n0] 0) = nodeDistance this"
    and "i < length (rows_from [n0]) \<Longrightarrow>
         aget NaN (rowMinX (calcRowDims this g [n0] 0)) i =
           minX_of g (centerX this) (rows_from [n0] ! i)"
    and "i < length (rows_from [n0]) \<Longrightarrow>
         aget NaN (rowMaxX (calcRowDims this g [n0] 0)) i =
           maxX_of g (centerX this) (rows_from [n0] ! i)"
  by (simp_all add: calcRowDims_closed assms aputs_fresh aget_aputs)

lemma minX_of_le:
  assumes "\<forall>c \<in> set (cells ks). finite_num (x (geometry g c))"
  shows "\<exists>m. minX_of g (Num cx) ks = Num m \<and> m \<le> cx \<and>
           (\<forall>c \<in> set (cells ks). m \<le> real_of (x (geometry g c)))"
  unfolding minX_of_Min [OF assms] by simp

lemma maxX_of_ge:
  assumes "\<forall>c \<in> set (cells ks). finite_num (x (geometry g c) + width (geometry g c))"
  shows "\<exists>m. maxX_of g (Num cx) ks = Num m \<and> cx \<le> m \<and>
           (\<forall>c \<in> set (cells ks). real_of (x (geometry g c) + width (geometry g c)) \<le> m)"
  unfolding maxX_of_Max [OF assms] by simp


lemma proportion_bounds:
  fixes xl xr a w :: real
  assumes "xl < xr" and "xl \<le> a" and "a + w \<le> xr" and "0 \<le> w"
  shows "0 \<le> 2 * pi * ((a + w / 2 - xl) / (xr - xl))"
    and "2 * pi * ((a + w / 2 - xl) / (xr - xl)) \<le> 2 * pi"
    and "0 < w \<Longrightarrow> 2 * pi * ((a + w / 2 - xl) / (xr - xl)) < 2 * pi"
proof -
  have p: "0 < xr - xl"
    using assms(1) by simp
  have "0 \<le> (a + w / 2 - xl) / (xr - xl)"
    using assms p by simp
  then show "0 \<le> 2 * pi * ((a + w / 2 - xl) / (xr - xl))"
    by (intro mult_nonneg_nonneg) simp_all
  have "(a + w / 2 - xl) / (xr - xl) \<le> 1"
    using assms p by simp
  then have "2 * pi * ((a + w / 2 - xl) / (xr - xl)) \<le> 2 * pi * 1"
    by (intro mult_left_mono) simp_all
  then show "2 * pi * ((a + w / 2 - xl) / (xr - xl)) \<le> 2 * pi"
    by simp
  show "2 * pi * ((a + w / 2 - xl) / (xr - xl)) < 2 * pi" if "0 < w"
  proof -
    have "(a + w / 2 - xl) / (xr - xl) < 1"
      using assms p that by simp
    then have "2 * pi * ((a + w / 2 - xl) / (xr - xl)) < 2 * pi * 1"
      by (intro mult_strict_left_mono) simp_all
    then show ?thesis
      by simp
  qed
qed

lemma proportion_mono:
  fixes xl xr u v :: real
  assumes "xl < xr" and "u < v"
  shows "2 * pi * ((u - xl) / (xr - xl)) < 2 * pi * ((v - xl) / (xr - xl))"
proof -
  have "(u - xl) / (xr - xl) < (v - xl) / (xr - xl)"
    using assms by (simp add: divide_strict_right_mono)
  then show ?thesis
    by (intro mult_strict_left_mono) simp_all
qed

text \<open>
  Claim C2, amended. On a new instance (an empty row array) with a finite center and a
  positive node distance, with positive row radii, vertices of finite position and of a
  width that is not negative, and distinct nodes in the rows: the second loop sets the
  angle of every node of every row \<open>i\<close> to \<open>2\<pi>\<close> times \<open>xProportion\<close>, the fractional position of
  the center of its vertex between \<open>xLeftLimit\<close> and \<open>xRightLimit\<close> of the row; the angle lies
  between 0 and \<open>2\<pi>\<close>, both included, and is less than \<open>2\<pi>\<close> when the vertex has a positive
  width; of two nodes of a row, the one whose vertex center has the smaller x receives
  the strictly smaller angle.
\<close>

theorem polar_assigns_proportional_angle:
  assumes fresh: "row this = []" and cx: "centerX this = Num cx"
    and nd: "nodeDistance this = Num nd" "0 < nd"
    and t7: "this7 = calcRowDims this g [n0] 0"
    and gr: "gradients this7 = (maxLeftGrad, maxRightGrad)"
    and po: "polar this7 g maxLeftGrad maxRightGrad th = Inr th1"
    and d: "distinct (row_refs (row this7))"
    and rad: "\<forall>j < length (row this7). \<exists>\<rho>. aget NaN (rowRadi this7) j = Num \<rho> \<and> 0 < \<rho>"
    and geo: "\<forall>j < length (row this7). \<forall>ms. row this7 ! j = Some ms \<longrightarrow>
        (\<forall>c \<in> set (cells ms). \<exists>a w. x (geometry g c) = Num a \<and>
           width (geometry g c) = Num w \<and> 0 \<le> w)"
    and i: "i < length (row this7)" and ks: "row this7 ! i = Some ks"
    and n: "Node r c child nx \<in> set ks"
  shows "th1 r = Num 2 * Math_PI *
           xProportion g (xLeftLimit this7 maxLeftGrad i) (xRightLimit this7 maxRightGrad i) c \<and>
         Num 0 \<le> th1 r \<and> th1 r \<le> Num 2 * Math_PI \<and>
         (Num 0 < width (geometry g c) \<longrightarrow> th1 r < Num 2 * Math_PI) \<and>
         (\<forall>r' c' child' nx'. Node r' c' child' nx' \<in> set ks \<and>
            x (geometry g c) + width (geometry g c) / Num 2 <
              x (geometry g c') + width (geometry g c') / Num 2 \<longrightarrow> th1 r < th1 r')"
proof -
  let ?rows = "rows_from [n0]"
  have r7: "row this7 = map Some ?rows"
    and c7: "centerX this7 = Num cx" and n7: "nodeDistance this7 = Num nd"
    unfolding t7 using calcRowDims_fresh [OF fresh] cx nd(1) by simp_all
  have len: "length (row this7) = length ?rows"
    by (simp add: r7)
  define mn where "mn j = real_of (aget NaN (rowMinX this7) j)" for j
  define mx where "mx j = real_of (aget NaN (rowMaxX this7) j)" for j
  define rd where "rd j = real_of (aget NaN (rowRadi this7) j)" for j
  have row_j: "aget NaN (rowMinX this7) j = Num (mn j) \<and> aget NaN (rowMaxX this7) j = Num (mx j) \<and>
      aget NaN (rowRadi this7) j = Num (rd j) \<and> 0 < rd j \<and>
      (\<forall>c \<in> set (cells (?rows ! j)). \<forall>a w. x (geometry g c) = Num a \<and>
          width (geometry g c) = Num w \<longrightarrow> mn j \<le> a \<and> a + w \<le> mx j)"
    if j: "j < length (row this7)" for j
  proof -
    have jl: "j < length ?rows"
      using j len by simp
    have rj: "row this7 ! j = Some (?rows ! j)"
      using jl by (simp add: r7)
    have fin: "\<forall>c \<in> set (cells (?rows ! j)). \<exists>a w. x (geometry g c) = Num a \<and>
           width (geometry g c) = Num w \<and> 0 \<le> w"
      using geo j rj by blast
    have f1: "\<forall>c \<in> set (cells (?rows ! j)). finite_num (x (geometry g c))"
      using fin by fastforce
    have f2: "\<forall>c \<in> set (cells (?rows ! j)).
        finite_num (x (geometry g c) + width (geometry g c))"
      using fin by fastforce
    obtain m1 where m1: "minX_of g (Num cx) (?rows ! j) = Num m1"
      "\<forall>c \<in> set (cells (?rows ! j)). m1 \<le> real_of (x (geometry g c))"
      using minX_of_le [OF f1, of cx] by blast
    obtain m2 where m2: "maxX_of g (Num cx) (?rows ! j) = Num m2"
      "\<forall>c \<in> set (cells (?rows ! j)). real_of (x (geometry g c) + width (geometry g c)) \<le> m2"
      using maxX_of_ge [OF f2, of cx] by blast
    have a1: "aget NaN (rowMinX this7) j = Num m1"
      unfolding t7 using calcRowDims_fresh(4) [OF fresh jl, of g] cx m1(1) by simp
    have a2: "aget NaN (rowMaxX this7) j = Num m2"
      unfolding t7 using calcRowDims_fresh(5) [OF fresh jl, of g] cx m2(1) by simp
    obtain \<rho> where p: "aget NaN (rowRadi this7) j = Num \<rho>" "0 < \<rho>"
      using rad j by blast
    have "mn j \<le> a \<and> a + w \<le> mx j"
      if "c \<in> set (cells (?rows ! j))" "x (geometry g c) = Num a" "width (geometry g c) = Num w"
      for c a w
      using m1(2) m2(2) that by (fastforce simp: mn_def mx_def a1 a2)
    then show ?thesis
      using a1 a2 p by (simp add: mn_def mx_def rd_def)
  qed
  have all: "\<forall>j < length (row this7). aget NaN (rowMinX this7) j = Num (mn j) \<and>
           aget NaN (rowMaxX this7) j = Num (mx j) \<and>
           aget NaN (rowRadi this7) j = Num (rd j) \<and> rd j \<noteq> 0"
    using row_j by fastforce
  obtain L R where g7: "gradients this7 = (Num L, Num R)" and L0: "0 \<le> L" and R0: "0 \<le> R"
    and LR: "\<forall>j < length (row this7).
        (cx - mn j - nd) / rd j \<le> L \<and> (mx j - cx - nd) / rd j \<le> R"
    using gradients_bounds [OF c7 n7 all] by blast
  have mg: "maxLeftGrad = Num L" "maxRightGrad = Num R"
    using gr g7 by simp_all
  have ri: "aget NaN (rowRadi this7) i = Num (rd i)" and rp: "0 < rd i"
    using row_j [OF i] by simp_all
  define xl where "xl = cx - nd - L * rd i"
  define xr where "xr = cx + nd + R * rd i"
  have xl: "xLeftLimit this7 maxLeftGrad i = Num xl"
    and xr: "xRightLimit this7 maxRightGrad i = Num xr"
    by (simp_all add: xLeftLimit_def xRightLimit_def c7 n7 mg ri xl_def xr_def)
  have "(cx - mn i - nd) / rd i \<le> L" and "(mx i - cx - nd) / rd i \<le> R"
    using LR i by simp_all
  then have "cx - mn i - nd \<le> L * rd i" and "mx i - cx - nd \<le> R * rd i"
    using rp by (simp_all add: pos_divide_le_eq)
  then have lim: "xl \<le> mn i" "mx i \<le> xr"
    by (simp_all add: xl_def xr_def)
  have "0 \<le> L * rd i" "0 \<le> R * rd i"
    using L0 R0 rp by simp_all
  then have lt: "xl < xr"
    using nd(2) by (simp add: xl_def xr_def)
  have ki: "?rows ! i = ks"
    using i ks len by (simp add: r7)
  have val: "\<exists>a w. x (geometry g c') = Num a \<and> width (geometry g c') = Num w \<and> 0 \<le> w \<and>
        xl \<le> a \<and> a + w \<le> xr \<and> th1 r' = Num (2 * pi * ((a + w / 2 - xl) / (xr - xl)))"
    if m: "Node r' c' child' nx' \<in> set ks" for r' c' child' nx'
  proof -
    have cm: "c' \<in> set (cells ks)"
      using m by (rule cells_mem)
    obtain a w where aw: "x (geometry g c') = Num a" "width (geometry g c') = Num w" "0 \<le> w"
      using geo i ks cm by blast
    have "mn i \<le> a \<and> a + w \<le> mx i"
      using row_j [OF i] cm aw(1,2) ki by blast
    then have b: "xl \<le> a" "a + w \<le> xr"
      using lim by simp_all
    have "th1 r' = Num 2 * Math_PI * xProportion g (Num xl) (Num xr) c'"
      using polar_write [OF po d i ks m] xl xr by simp
    then have "th1 r' = Num (2 * pi * ((a + w / 2 - xl) / (xr - xl)))"
      using lt aw by (simp add: xProportion_def getVertexBounds_def Math_PI_def)
    then show ?thesis
      using aw b by blast
  qed
  obtain a w where aw: "x (geometry g c) = Num a" "width (geometry g c) = Num w" "0 \<le> w"
    "xl \<le> a" "a + w \<le> xr" and t: "th1 r = Num (2 * pi * ((a + w / 2 - xl) / (xr - xl)))"
    using val [OF n] by blast
  have 1: "th1 r = Num 2 * Math_PI *
           xProportion g (xLeftLimit this7 maxLeftGrad i) (xRightLimit this7 maxRightGrad i) c"
    by (rule polar_write [OF po d i ks n])
  have 2: "Num 0 \<le> th1 r" and 3: "th1 r \<le> Num 2 * Math_PI"
    using proportion_bounds(1,2) [OF lt aw(4,5,3)] by (simp_all add: t Math_PI_def)
  have 4: "Num 0 < width (geometry g c) \<longrightarrow> th1 r < Num 2 * Math_PI"
    using proportion_bounds(3) [OF lt aw(4,5,3)] by (simp add: t aw(2) Math_PI_def)
  have 5: "th1 r < th1 r'"
    if m: "Node r' c' child' nx' \<in> set ks"
      and o: "x (geometry g c) + width (geometry g c) / Num 2 <
              x (geometry g c') + width (geometry g c') / Num 2"
    for r' c' child' nx'
  proof -
    obtain a' w' where aw': "x (geometry g c') = Num a'" "width (geometry g c') = Num w'"
      and t': "th1 r' = Num (2 * pi * ((a' + w' / 2 - xl) / (xr - xl)))"
      using val [OF m] by blast
    have "a + w / 2 < a' + w' / 2"
      using o by (simp add: aw(1,2) aw')
    then show ?thesis
      using proportion_mono [OF lt, of "a + w / 2" "a' + w' / 2"] by (simp add: t t')
  qed
  show ?thesis
    using 1 2 3 4 5 by blast
qed


definition ex_polar :: "nat \<Rightarrow> num" where
  "ex_polar = (\<lambda>k. NaN)(1 := Num (pi / 6), 2 := Num (11 * pi / 6), 3 := Num (16 * pi / 11))"

lemma ex_gradients: "gradients (layout ex_out) = (Num 1, Num 1)"
  by (simp add: gradients_def ex_out_def fresh_def Let_def)

lemma ex_polar_run: "polar (layout ex_out) ex_g (Num 1) (Num 1) (\<lambda>k. NaN) = Inr ex_polar"
  by (simp add: polar_def polar_row_def polar_node_def getVertexBounds_def ex_out_def ex_g_def
      ex_prepare ex_polar_def fresh_def ex_A_def ex_B_def ex_C_def ex_x_def Math_PI_def Let_def
      cong: let_weak_cong)

theorem polar_assigns_proportional_angle_witness:
  "gradients (layout ex_out) = (Num 1, Num 1) \<and>
   polar (layout ex_out) ex_g (Num 1) (Num 1) (\<lambda>k. NaN) = Inr ex_polar \<and>
   row (layout ex_out) ! 0 = Some [ex_A, ex_B] \<and>
   ex_polar 1 = Num 2 * Math_PI *
     xProportion ex_g (xLeftLimit (layout ex_out) (Num 1) 0)
       (xRightLimit (layout ex_out) (Num 1) 0) 1 \<and>
   ex_polar 1 = Num (pi / 6) \<and> ex_polar 2 = Num (11 * pi / 6) \<and>
   Num 0 \<le> ex_polar 1 \<and> ex_polar 1 \<le> Num 2 * Math_PI \<and> ex_polar 1 < Num 2 * Math_PI \<and>
   ex_polar 1 < ex_polar 2"
proof -
  have fresh: "row ex_this = []" and cx: "centerX ex_this = Num 100"
    and nd: "nodeDistance ex_this = Num 10" "(0::real) < 10"
    by (simp_all add: ex_this_def ex_prepare fresh_def)
  have t7: "layout ex_out = calcRowDims ex_this ex_g [ex_tree] 0"
    by (simp add: ex_calc)
  have rw: "row (layout ex_out) = [Some [ex_A, ex_B], Some [ex_C]]"
    and rr: "rowRadi (layout ex_out) = [Num 50, Num 100]"
    by (simp_all add: ex_out_def)
  have d: "distinct (row_refs (row (layout ex_out)))"
    by (simp add: rw row_refs_def ex_A_def ex_B_def ex_C_def)
  have rad: "\<forall>j < length (row (layout ex_out)).
      \<exists>\<rho>. aget NaN (rowRadi (layout ex_out)) j = Num \<rho> \<and> 0 < \<rho>"
    by (simp add: rw rr less_Suc_eq numeral_2_eq_2 aget_def)
  have "\<exists>a w. x (geometry ex_g c) = Num a \<and> width (geometry ex_g c) = Num w \<and> 0 \<le> w" for c
    by (simp add: ex_g_def ex_prepare)
  then have geo: "\<forall>j < length (row (layout ex_out)). \<forall>ms. row (layout ex_out) ! j = Some ms \<longrightarrow>
        (\<forall>c \<in> set (cells ms). \<exists>a w. x (geometry ex_g c) = Num a \<and>
           width (geometry ex_g c) = Num w \<and> 0 \<le> w)"
    by blast
  have i: "0 < length (row (layout ex_out))" and ks: "row (layout ex_out) ! 0 = Some [ex_A, ex_B]"
    by (simp_all add: rw)
  have n: "Node 1 1 Null ex_B \<in> set [ex_A, ex_B]"
    by (simp add: ex_A_def)
  have w: "Num 0 < width (geometry ex_g 1)"
    by (simp add: ex_g_def ex_prepare)
  have o: "Node 2 2 ex_C Null \<in> set [ex_A, ex_B] \<and>
      x (geometry ex_g 1) + width (geometry ex_g 1) / Num 2 <
        x (geometry ex_g 2) + width (geometry ex_g 2) / Num 2"
    by (simp add: ex_g_def ex_prepare ex_B_def ex_x_def)
  have v: "ex_polar 1 = Num (pi / 6)" "ex_polar 2 = Num (11 * pi / 6)"
    by (simp_all add: ex_polar_def)
  show ?thesis
    using polar_assigns_proportional_angle [OF fresh cx nd t7 ex_gradients ex_polar_run d rad geo i ks n]
      ex_gradients ex_polar_run ks w o v
    by blast
qed


subsection \<open>A vertex of width zero\<close>

text \<open>
  The root (20 wide, at x = 90) has the children A (20 wide, at x = 40) and B (of width 0,
  at x = 160); the node distance is 10. The row reaches from 40 to 160, both gradients
  are 1, and the virtual limits of the row are 40 and 160: the center of B is the right
  limit.
\<close>

definition point_B :: node where "point_B = Node 2 2 Null Null"
definition point_A :: node where "point_A = Node 1 1 Null point_B"
definition point_tree :: node where "point_tree = Node 0 0 point_A Null"

definition point_x :: "nat \<Rightarrow> real" where
  "point_x c = (if c = 0 then 90 else if c = 1 then 40 else 160)"

definition point_y :: "nat \<Rightarrow> real" where
  "point_y c = (if c = 0 then 0 else 50)"

definition point_width :: "nat \<Rightarrow> real" where
  "point_width c = (if c = 2 then 0 else 20)"

definition point_super :: compact_layout where
  "point_super s g th p r =
     (s\<lparr>root := 0, node := point_tree\<rparr>,
      g\<lparr>geometry := \<lambda>c. (geometry g c)\<lparr>x := Num (point_x c), y := Num (point_y c)\<rparr>\<rparr>,
      \<lambda>k. NaN)"

definition point_m :: machine where
  "point_m = \<lparr>layout = fresh,
     graph = \<lparr>edges = [(0, 1), (0, 2)],
       geometry = \<lambda>c. \<lparr>x = Num 0, y = Num 0, width = Num (point_width c), height = Num 20\<rparr>\<rparr>,
     theta = \<lambda>k. NaN\<rparr>"

lemmas point_defs = point_m_def fresh_def point_super_def point_tree_def point_A_def
  point_B_def point_x_def point_y_def point_width_def

definition point_out :: machine where
  "point_out =
     \<lparr>layout = fresh\<lparr>parent := 0, useBoundingBox := False, edgeRouting := False,
        node := point_tree,
        rowMinX := [Num 40], rowMaxX := [Num 160],
        rowMinCenX := [Num 50], rowMaxCenX := [Num 160],
        rowRadi := [Num 50], row := [Some [point_A, point_B]],
        centerX := Num 100, centerY := Num 10\<rparr>,
      graph = \<lparr>edges = [(0, 1), (0, 2)],
        geometry = (\<lambda>c. \<lparr>x = Num (point_x c), y = Num (point_y c),
                          width = Num (point_width c), height = Num 20\<rparr>)
          (1 := \<lparr>x = Num (90 + 50 * cos (pi / 6)), y = Num (50 * sin (pi / 6)),
                 width = Num 20, height = Num 20\<rparr>,
           2 := \<lparr>x = Num 150, y = Num 0, width = Num 0, height = Num 20\<rparr>)\<rparr>,
      theta = (\<lambda>k. NaN)(1 := Num (pi / 6), 2 := Num (2 * pi))\<rparr>"

lemma point_execute: "execute point_super point_m 0 None = Inr point_out"
  by (simp add: point_out_def eval_defs point_defs cong: let_weak_cong)

lemma point_prepare:
  "prepare point_super point_m 0 None =
     (fresh\<lparr>parent := 0, useBoundingBox := False, edgeRouting := False, node := point_tree,
        centerX := Num 100, centerY := Num 10\<rparr>,
      \<lparr>edges = [(0, 1), (0, 2)],
       geometry = \<lambda>c. \<lparr>x = Num (point_x c), y = Num (point_y c), width = Num (point_width c),
                         height = Num 20\<rparr>\<rparr>,
      \<lambda>k. NaN)"
  by (simp add: prepare_def super_part_def set_super_def getVertexBounds_def
      mxCompactTreeLayout.truncate_def point_m_def fresh_def point_super_def point_x_def
      point_y_def point_width_def Let_def)

lemma point_gradients: "gradients (layout point_out) = (Num 1, Num 1)"
  by (simp add: gradients_def point_out_def fresh_def Let_def)

lemma point_polar:
  "polar (layout point_out) (fst (snd (prepare point_super point_m 0 None)))
     (fst (gradients (layout point_out))) (snd (gradients (layout point_out)))
     (snd (snd (prepare point_super point_m 0 None))) = Inr (theta point_out)"
  unfolding point_prepare point_gradients
  by (simp add: polar_def polar_row_def polar_node_def getVertexBounds_def point_out_def
      fresh_def point_A_def point_B_def point_x_def point_y_def point_width_def Math_PI_def
      Let_def cong: let_weak_cong)

text \<open>
  Claim C2 as stated fails on this run of execute: the fractional position of B is 1 and
  its angle is \<open>2\<pi>\<close>, which is not in the half-open range.
\<close>

theorem execute_zero_width_full_turn:
  "execute point_super point_m 0 None = Inr point_out \<and>
   row (layout point_out) = [Some [point_A, point_B]] \<and>
   polar (layout point_out) (fst (snd (prepare point_super point_m 0 None)))
     (fst (gradients (layout point_out))) (snd (gradients (layout point_out)))
     (snd (snd (prepare point_super point_m 0 None))) = Inr (theta point_out) \<and>
   xProportion (fst (snd (prepare point_super point_m 0 None)))
     (xLeftLimit (layout point_out) (fst (gradients (layout point_out))) 0)
     (xRightLimit (layout point_out) (snd (gradients (layout point_out))) 0) 2 = Num 1 \<and>
   theta point_out 2 = Num (2 * pi) \<and>
   \<not> theta point_out 2 < Num 2 * Math_PI"
proof -
  have "xProportion (fst (snd (prepare point_super point_m 0 None)))
     (xLeftLimit (layout point_out) (fst (gradients (layout point_out))) 0)
     (xRightLimit (layout point_out) (snd (gradients (layout point_out))) 0) 2 = Num 1"
    unfolding point_prepare point_gradients
    by (simp add: xProportion_def xLeftLimit_def xRightLimit_def getVertexBounds_def
        point_out_def fresh_def point_x_def point_width_def)
  moreover have "theta point_out 2 = Num (2 * pi)"
    "row (layout point_out) = [Some [point_A, point_B]]"
    by (simp_all add: point_out_def)
  ultimately show ?thesis
    using point_execute point_polar by (simp add: Math_PI_def)
qed

section \<open>The row array of an instance\<close>

text \<open>
  The row array of an instance holds no hole and no null entry: it is empty at
  construction, calcRowDims assigns its entries from index 0 on, and the nodes it pushes
  are not null.
\<close>

definition wf_rows :: "node list option list \<Rightarrow> bool" where
  "wf_rows rows = list_all (\<lambda>e. case e of None \<Rightarrow> False | Some ns \<Rightarrow> Null \<notin> set ns) rows"

lemma wf_rows_nth:
  "wf_rows rows \<Longrightarrow> i < length rows \<Longrightarrow> \<exists>ns. rows ! i = Some ns \<and> Null \<notin> set ns"
  by (auto simp: wf_rows_def list_all_length split: option.splits)

lemma aputs_0: "aputs h xs 0 vs = vs @ drop (length vs) xs"
proof -
  have "aget h (aputs h xs 0 vs) j = aget h (vs @ drop (length vs) xs) j" for j
    unfolding aget_aputs by (auto simp: aget_def nth_append)
  then show ?thesis
    by (subst list_eq_aget [where h = h]) (auto simp: length_aputs)
qed

lemma rows_from_no_Null: "ks \<in> set (rows_from ns) \<Longrightarrow> Null \<notin> set ks"
proof (induction ns rule: rows_from.induct)
  case (1 ns)
  show ?case
  proof (cases "ns = []")
    case True
    then show ?thesis using 1(2) by (simp add: rows_from_Nil)
  next
    case False
    then show ?thesis
      using 1 kids_no_Null [of ns] by (auto simp: rows_from_Cons split: if_splits)
  qed
qed

lemma calcRowDims_wf:
  assumes "wf_rows (row this)"
  shows "wf_rows (row (calcRowDims this g ns 0))"
proof -
  have "wf_rows (map Some (rows_from ns))"
    using rows_from_no_Null by (auto simp: wf_rows_def list_all_iff)
  moreover have "wf_rows (drop k (row this))" for k
    using assms by (auto simp: wf_rows_def list_all_iff dest: in_set_dropD)
  ultimately show ?thesis
    by (simp add: calcRowDims_closed aputs_0 wf_rows_def)
qed

lemma foldE_returns:
  assumes "\<And>a s. a \<in> set as \<Longrightarrow> \<exists>s'. f a s = Inr s'"
  shows "\<exists>s'. foldE f as s = Inr s'"
  using assms
proof (induction as arbitrary: s)
  case Nil
  show ?case by simp
next
  case (Cons a as)
  obtain t where t: "f a s = Inr t"
    using Cons.prems [of a s] by auto
  have "\<exists>s'. foldE f as t = Inr s'"
  proof (rule Cons.IH)
    fix b u
    assume "b \<in> set as"
    then show "\<exists>s'. f b u = Inr s'"
      using Cons.prems [of b u] by simp
  qed
  then show ?case
    using t by simp
qed

lemma polar_returns:
  assumes "wf_rows (row this)"
  shows "\<exists>th'. polar this g maxLeftGrad maxRightGrad th = Inr th'"
  unfolding polar_def
proof (rule foldE_returns)
  fix i t
  assume "i \<in> set [0..<length (row this)]"
  then obtain ns where ns: "aget None (row this) i = Some ns" "Null \<notin> set ns"
    using wf_rows_nth [OF assms, of i] by (auto simp: aget_def)
  have "\<exists>t'. foldE (polar_node g xl fw) ns t = Inr t'" for xl fw
  proof (rule foldE_returns)
    fix n u
    assume "n \<in> set ns"
    then have "n \<noteq> Null"
      using ns(2) by auto
    then show "\<exists>t'. polar_node g xl fw n u = Inr t'"
      by (cases n) (simp_all add: polar_node_def Let_def)
  qed
  then show "\<exists>t'. polar_row this g maxLeftGrad maxRightGrad i t = Inr t'"
    using ns(1) by (simp add: polar_row_def Let_def)
qed

lemma reconcile_node_returns:
  assumes "Null \<notin> set nodes" and "j < length nodes"
  shows "\<exists>th'. reconcile_node nodes j th = Inr th'"
proof -
  have n: "nodes ! k \<noteq> Null" if "k < length nodes" for k
    using assms(1) that by (metis nth_mem)
  obtain r c child nx where j: "nodes ! j = Node r c child nx"
    using n [OF assms(2)] by (cases "nodes ! j") auto
  have 1: "j < length nodes - 1 \<Longrightarrow> \<exists>v. theta_of th (nodes ! (j + 1)) = Inr v"
    using n [of "j + 1"] by (cases "nodes ! (j + 1)") (auto simp: theta_of_def)
  have 2: "\<exists>v. theta_of th (nodes ! (j - 1)) = Inr v"
    using n [of "j - 1"] assms(2) by (cases "nodes ! (j - 1)") (auto simp: theta_of_def)
  show ?thesis
    using j 1 2 by (auto simp: reconcile_node_def Let_def split: prod.splits)
qed

lemma reconcile_returns:
  assumes "wf_rows rows"
  shows "\<exists>th'. reconcile rows th = Inr th'"
  unfolding reconcile_def
proof (rule foldE_returns)
  fix i t
  assume "i \<in> set (rev [0..<length rows - 1])"
  then have "i < length rows"
    by auto
  then obtain ns where ns: "rows ! i = Some ns" "Null \<notin> set ns"
    using wf_rows_nth [OF assms] by blast
  have "\<exists>t'. reconcile_row ns t = Inr t'"
    unfolding reconcile_row_def
  proof (rule foldE_returns)
    fix j u
    assume "j \<in> set [0..<length ns]"
    then show "\<exists>t'. reconcile_node ns j u = Inr t'"
      using reconcile_node_returns [OF ns(2), of j u] by simp
  qed
  then show "\<exists>t'. (case rows ! i of None \<Rightarrow> Inl TypeError
      | Some nodes \<Rightarrow> reconcile_row nodes t) = Inr t'"
    using ns(1) by simp
qed

lemma emit_returns:
  assumes "wf_rows (row this)"
  shows "\<exists>g'. emit this th g = Inr g'"
  unfolding emit_def
proof (rule foldE_returns)
  fix i t
  assume "i \<in> set [0..<length (row this)]"
  then obtain ns where ns: "aget None (row this) i = Some ns" "Null \<notin> set ns"
    using wf_rows_nth [OF assms, of i] by (auto simp: aget_def)
  have "\<exists>t'. foldE (emit_node this th i) ns t = Inr t'"
  proof (rule foldE_returns)
    fix n u
    assume "n \<in> set ns"
    then have "n \<noteq> Null"
      using ns(2) by auto
    then show "\<exists>t'. emit_node this th i n u = Inr t'"
      by (cases n) (simp_all add: emit_node_def Let_def)
  qed
  then show "\<exists>t'. emit_row this th i t = Inr t'"
    using ns(1) by (simp add: emit_row_def)
qed

text \<open>execute returns: none of its loops meets a hole or a null entry.\<close>

lemma execute_returns:
  assumes "wf_rows (row (layout m))"
  shows "\<exists>m'. execute se m p r = Inr m'"
proof -
  obtain this6 g th where pr: "prepare se m p r = (this6, g, th)"
    by (metis prod_cases3)
  let ?this7 = "calcRowDims this6 g [node this6] 0"
  have w: "wf_rows (row ?this7)"
    using calcRowDims_wf assms prepare_arrays [OF pr] by simp
  obtain l rg where gr: "gradients ?this7 = (l, rg)"
    by (cases "gradients ?this7")
  obtain th1 where po: "polar ?this7 g l rg th = Inr th1"
    using polar_returns [OF w] by blast
  obtain th2 where re: "reconcile (row ?this7) th1 = Inr th2"
    using reconcile_returns [OF w] by blast
  obtain g' where em: "emit ?this7 th2 g = Inr g'"
    using emit_returns [OF w] by blast
  show ?thesis
    by (simp add: execute_def pr gr po re em Let_def)
qed


subsection \<open>useBoundingBox and edgeRouting\<close>

lemma execute_layout:
  assumes "execute se m p r = Inr m'" and "prepare se m p r = (this6, g, th)"
  shows "layout m' = calcRowDims this6 g [node this6] 0"
  using assms by (auto simp: execute_def Let_def split: prod.splits sum.splits)

lemma calcRowDims_flags:
  "useBoundingBox (calcRowDims this g ns n) = useBoundingBox this"
  "edgeRouting (calcRowDims this g ns n) = edgeRouting this"
  by (simp_all add: calcRowDims_closed)

text \<open>
  Claim C9. On an instance whose row array has no hole and no null entry, execute
  returns, and it returns the same machine whatever values the caller has set for
  useBoundingBox and edgeRouting: both fields are overwritten with false before the base
  layout runs. The base layout is called with both fields false, the two fields of the
  instance after the run are the ones that this call returned, and so they are false when
  the base layout does not change them.
\<close>

theorem execute_overwrites_useBoundingBox_edgeRouting:
  assumes "wf_rows (row (layout m))"
  shows "\<exists>m' s' g' th'.
     execute se (m\<lparr>layout := (layout m)\<lparr>useBoundingBox := a, edgeRouting := b\<rparr>\<rparr>) p r = Inr m' \<and>
     execute se m p r = Inr m' \<and>
     execute (\<lambda>s. se (s\<lparr>useBoundingBox := False, edgeRouting := False\<rparr>)) m p r = Inr m' \<and>
     se (super_part ((layout m)\<lparr>parent := p, useBoundingBox := False, edgeRouting := False\<rparr>))
        (graph m) (theta m) p r = (s', g', th') \<and>
     useBoundingBox (layout m') = useBoundingBox s' \<and>
     edgeRouting (layout m') = edgeRouting s' \<and>
     ((\<forall>s g th. useBoundingBox (fst (se s g th p r)) = useBoundingBox s \<and>
                edgeRouting (fst (se s g th p r)) = edgeRouting s) \<longrightarrow>
      \<not> useBoundingBox (layout m') \<and> \<not> edgeRouting (layout m'))"
proof -
  let ?l0 = "(layout m)\<lparr>parent := p, useBoundingBox := False, edgeRouting := False\<rparr>"
  obtain m' where e: "execute se m p r = Inr m'"
    using execute_returns [OF assms] by blast
  obtain s' g' th' where c: "se (super_part ?l0) (graph m) (theta m) p r = (s', g', th')"
    by (metis prod_cases3)
  obtain this6 where pr: "prepare se m p r = (this6, g', th')"
    and f: "useBoundingBox this6 = useBoundingBox s'" "edgeRouting this6 = edgeRouting s'"
    using c by (simp add: prepare_def Let_def set_super_def)
  have l: "useBoundingBox (layout m') = useBoundingBox s'"
    "edgeRouting (layout m') = edgeRouting s'"
    using execute_layout [OF e pr] f by (simp_all add: calcRowDims_flags)
  have 1: "execute se (m\<lparr>layout := (layout m)\<lparr>useBoundingBox := a, edgeRouting := b\<rparr>\<rparr>) p r =
      execute se m p r"
    and 2: "execute (\<lambda>s. se (s\<lparr>useBoundingBox := False, edgeRouting := False\<rparr>)) m p r =
      execute se m p r"
    by (simp_all add: execute_def prepare_def Let_def super_part_def set_super_def
        mxCompactTreeLayout.truncate_def)
  have "\<not> useBoundingBox s' \<and> \<not> edgeRouting s'"
    if k: "\<forall>s g th. useBoundingBox (fst (se s g th p r)) = useBoundingBox s \<and>
                edgeRouting (fst (se s g th p r)) = edgeRouting s"
  proof -
    have "useBoundingBox s' = useBoundingBox (super_part ?l0)"
      "edgeRouting s' = edgeRouting (super_part ?l0)"
      using k [rule_format, of "super_part ?l0" "graph m" "theta m"] c by simp_all
    then show ?thesis
      by (simp add: super_part_def mxCompactTreeLayout.truncate_def)
  qed
  then show ?thesis
    using e c l 1 2 by auto
qed

theorem execute_overwrites_useBoundingBox_edgeRouting_witness:
  "wf_rows (row (layout ex_m)) \<and> useBoundingBox (layout ex_m) \<and> edgeRouting (layout ex_m) \<and>
   execute ex_super ex_m 0 None = Inr ex_out \<and>
   \<not> useBoundingBox (layout ex_out) \<and> \<not> edgeRouting (layout ex_out)"
proof -
  have w: "wf_rows (row (layout ex_m))"
    and f: "useBoundingBox (layout ex_m)" "edgeRouting (layout ex_m)"
    by (simp_all add: ex_m_def fresh_def wf_rows_def)
  have k: "\<forall>s g th. useBoundingBox (fst (ex_super s g th 0 None)) = useBoundingBox s \<and>
      edgeRouting (fst (ex_super s g th 0 None)) = edgeRouting s"
    by (simp add: ex_super_def)
  show ?thesis
    using execute_overwrites_useBoundingBox_edgeRouting [OF w, of ex_super True True 0 None]
      k w f ex_execute
    by auto
qed


section \<open>The radial invariant\<close>





subsection \<open>The base layouts of the examples\<close>


subsection \<open>An instance that is used again\<close>














subsection \<open>A child above the root\<close>









section \<open>Running execute twice\<close>




















subsection \<open>The second run on a new instance\<close>






subsection \<open>A used instance and a cell that is left in place\<close>



















end
